theory Spec2Isabelle
  imports Complex_Main
begin

section \<open>Text as the converter sees it\<close>

text \<open>
  The converter \<^verbatim>\<open>scripts/csv_conversion.py\<close> reads a field file with
  \<^verbatim>\<open>readlines()\<close> and works on the list of lines, each still carrying its line
  terminator. A line is modelled as a \<^typ>\<open>string\<close>; a character stands for a code
  point below 256.
\<close>

subsection \<open>The string methods of Python that the source calls\<close>

definition py_isspace :: "char \<Rightarrow> bool" where
  \<comment> \<open>\<^verbatim>\<open>str.isspace\<close> on one character: tab, LF, VT, FF, CR, the four separators
      0x1C..0x1F, blank, NEL (0x85) and the no-break space (0xA0).\<close>
  "py_isspace c \<longleftrightarrow> c \<in> set [CHR 0x09, CHR 0x0A, CHR 0x0B, CHR 0x0C, CHR 0x0D,
      CHR 0x1C, CHR 0x1D, CHR 0x1E, CHR 0x1F, CHR 0x20, CHR 0x85, CHR 0xA0]"

definition is_digit :: "char \<Rightarrow> bool" where
  "is_digit c \<longleftrightarrow> c \<in> set ''0123456789''"

definition lstrip_with :: "(char \<Rightarrow> bool) \<Rightarrow> string \<Rightarrow> string" where
  "lstrip_with P s = dropWhile P s"

definition rstrip_with :: "(char \<Rightarrow> bool) \<Rightarrow> string \<Rightarrow> string" where
  "rstrip_with P s = rev (dropWhile P (rev s))"

definition strip_with :: "(char \<Rightarrow> bool) \<Rightarrow> string \<Rightarrow> string" where
  "strip_with P s = rstrip_with P (lstrip_with P s)"

definition strip :: "string \<Rightarrow> string" where
  \<comment> \<open>\<^verbatim>\<open>s.strip()\<close>\<close>
  "strip s = strip_with py_isspace s"

definition strip_chars :: "string \<Rightarrow> string \<Rightarrow> string" where
  \<comment> \<open>\<^verbatim>\<open>s.strip(cs)\<close>: every leading and trailing character that occurs in \<open>cs\<close> goes.\<close>
  "strip_chars cs s = strip_with (\<lambda>c. c \<in> set cs) s"

definition rstrip_chars :: "string \<Rightarrow> string \<Rightarrow> string" where
  \<comment> \<open>\<^verbatim>\<open>s.rstrip(cs)\<close>\<close>
  "rstrip_chars cs s = rstrip_with (\<lambda>c. c \<in> set cs) s"

definition replace_char :: "char \<Rightarrow> char \<Rightarrow> string \<Rightarrow> string" where
  \<comment> \<open>\<^verbatim>\<open>s.replace(a, b)\<close> for one-character \<open>a\<close> and \<open>b\<close>: every occurrence is replaced.\<close>
  "replace_char a b s = map (\<lambda>c. if c = a then b else c) s"

definition semicolons_blanked :: "string \<Rightarrow> string" where
  \<comment> \<open>\<^verbatim>\<open>s.replace(";", " ").strip()\<close>, which the source applies to the text of a
      uniform entry and to each line of a scalar list.\<close>
  "semicolons_blanked s = strip (replace_char CHR '';'' CHR '' '' s)"

fun startswith :: "string \<Rightarrow> string \<Rightarrow> bool" where
  \<comment> \<open>\<^verbatim>\<open>s.startswith(p)\<close>, written \<open>startswith p s\<close>\<close>
  "startswith [] s = True"
| "startswith (p # ps) [] = False"
| "startswith (p # ps) (c # cs) = (p = c \<and> startswith ps cs)"

definition endswith :: "string \<Rightarrow> string \<Rightarrow> bool" where
  "endswith p s = startswith (rev p) (rev s)"

fun contains :: "string \<Rightarrow> string \<Rightarrow> bool" where
  \<comment> \<open>\<^verbatim>\<open>sub in s\<close>, written \<open>contains sub s\<close>\<close>
  "contains sub [] = (sub = [])"
| "contains sub (c # cs) = (startswith sub (c # cs) \<or> contains sub cs)"

fun split_once :: "string \<Rightarrow> string \<Rightarrow> string \<Rightarrow> string list" where
  \<comment> \<open>\<^verbatim>\<open>s.split(sep, 1)\<close> for a non-empty \<open>sep\<close>: the text before the first
      occurrence of \<open>sep\<close> and the text after it, or the whole text alone when \<open>sep\<close>
      does not occur. The second argument collects the text already passed.\<close>
  "split_once sep pre [] = [pre]"
| "split_once sep pre (c # cs) =
     (if startswith sep (c # cs) then [pre, drop (length sep) (c # cs)]
      else split_once sep (pre @ [c]) cs)"

fun split_ws :: "string \<Rightarrow> string \<Rightarrow> string list" where
  \<comment> \<open>The scan behind \<^verbatim>\<open>s.split()\<close>: \<open>cur\<close> is the token being read.\<close>
  "split_ws cur [] = (if cur = [] then [] else [cur])"
| "split_ws cur (c # cs) =
     (if py_isspace c then (if cur = [] then split_ws [] cs else cur # split_ws [] cs)
      else split_ws (cur @ [c]) cs)"

definition py_split :: "string \<Rightarrow> string list" where
  \<comment> \<open>\<^verbatim>\<open>s.split()\<close>: the maximal runs of non-whitespace characters, in order.\<close>
  "py_split s = split_ws [] s"

definition is_count_line :: "string \<Rightarrow> bool" where
  \<comment> \<open>\<^verbatim>\<open>re.match(r"^\s*\d+\s*$", s)\<close>: whitespace, one digit or more, whitespace,
      and nothing else. Whitespace and digits are disjoint, so the greedy match has
      one way to succeed; a final line feed is whitespace, so \<^verbatim>\<open>$\<close> adds nothing.\<close>
  "is_count_line s =
     (let t = dropWhile py_isspace s
      in takeWhile is_digit t \<noteq> [] \<and> list_all py_isspace (dropWhile is_digit t))"

fun first_index :: "('a \<Rightarrow> bool) \<Rightarrow> 'a list \<Rightarrow> nat option" where
  \<comment> \<open>The loop \<^verbatim>\<open>for i, x in enumerate(xs): if P(x): idx = i; break\<close>, with
      \<open>None\<close> when the loop ends without a hit.\<close>
  "first_index P [] = None"
| "first_index P (x # xs) =
     (if P x then Some 0 else map_option Suc (first_index P xs))"

definition first_index_from :: "('a \<Rightarrow> bool) \<Rightarrow> 'a list \<Rightarrow> nat \<Rightarrow> nat option" where
  \<comment> \<open>The loop \<^verbatim>\<open>for i in range(k, len(xs)): if P(xs[i]): idx = i; break\<close>.\<close>
  "first_index_from P xs k = map_option (\<lambda>j. k + j) (first_index P (drop k xs))"

section \<open>The field-block locator\<close>

text \<open>
  Every failure of the source is a value. The source raises \<^verbatim>\<open>ValueError\<close> with one of
  five messages of its own, \<^verbatim>\<open>float\<close> raises \<^verbatim>\<open>ValueError\<close> on text that is no number,
  and indexing past the end of a list raises \<^verbatim>\<open>IndexError\<close>. The constructors are
  named after the kinds of failure:
  \<^item> \<open>MissingEntry\<close>: \<^verbatim>\<open>ValueError("No internalField found in file")\<close>;
  \<^item> \<open>MissingCount\<close>: \<^verbatim>\<open>ValueError("Could not find number of entries for nonuniform internalField")\<close>;
  \<^item> \<open>MissingOpenDelimiter\<close>: \<^verbatim>\<open>ValueError("Could not find opening '(' for value list")\<close>;
  \<^item> \<open>ArityMismatch\<close>: \<^verbatim>\<open>ValueError("Expected 3 components in ...")\<close>;
  \<^item> \<open>MalformedNumber\<close>: the \<^verbatim>\<open>ValueError\<close> of \<^verbatim>\<open>float\<close>;
  \<^item> \<open>IndexError\<close>: \<^verbatim>\<open>IndexError\<close>.
  The source has no other \<^verbatim>\<open>raise\<close>.
\<close>

datatype error =
    MissingEntry
  | MissingCount
  | MissingOpenDelimiter
  | ArityMismatch
  | MalformedNumber
  | IndexError

definition is_terminator :: "string \<Rightarrow> bool" where
  \<comment> \<open>\<^verbatim>\<open>stripped in (")", ");")\<close>\<close>
  "is_terminator stripped \<longleftrightarrow> stripped = '')'' \<or> stripped = '');''"

fun collect_data_lines :: "string list \<Rightarrow> string list \<Rightarrow> string list" where
  \<comment> \<open>The last loop of \<^verbatim>\<open>parse_internal_field_lines\<close>, over the lines from
      \<^verbatim>\<open>start_idx\<close> on; the first argument is \<^verbatim>\<open>data_lines\<close>.\<close>
  "collect_data_lines data_lines [] = data_lines"
| "collect_data_lines data_lines (l # ls) =
     (let stripped = strip l
      in if is_terminator stripped then data_lines
         else if stripped = [] \<or> startswith ''//'' stripped then collect_data_lines data_lines ls
         else collect_data_lines (data_lines @ [stripped]) ls)"

definition parse_internal_field_lines :: "string list \<Rightarrow> error + (string list \<times> bool)" where
  \<comment> \<open>Returns \<^verbatim>\<open>(data_lines, is_uniform)\<close>.\<close>
  "parse_internal_field_lines lines =
     (case first_index (contains ''internalField'') lines of
        None \<Rightarrow> Inl MissingEntry
      | Some idx \<Rightarrow>
          let line = lines ! idx
          in if contains ''uniform'' line \<and> \<not> contains ''nonuniform'' line
             then (case split_once ''uniform'' [] line of
                     _ # after # _ \<Rightarrow> Inr ([semicolons_blanked after], True)
                   | _ \<Rightarrow> Inl IndexError)
             else (case first_index_from is_count_line lines idx of
                     None \<Rightarrow> Inl MissingCount
                   | Some n_idx \<Rightarrow>
                       (case first_index_from (\<lambda>l. strip l = ''('') lines (n_idx + 1) of
                          None \<Rightarrow> Inl MissingOpenDelimiter
                        | Some i \<Rightarrow> Inr (collect_data_lines [] (drop (i + 1) lines), False))))"

section \<open>The numeric extractors\<close>

text \<open>
  \<^verbatim>\<open>float\<close> is a builtin of Python, not code of the converter: the extractors take it
  as the parameter \<open>float\<close>, a partial function from text to values, \<open>None\<close> where
  \<^verbatim>\<open>float\<close> raises \<^verbatim>\<open>ValueError\<close>. The extractors are modelled from the point where the
  file has been read: their argument is the result of \<^verbatim>\<open>f.readlines()\<close>.
\<close>

fun scalar_loop :: "(string \<Rightarrow> 'v option) \<Rightarrow> 'v list \<Rightarrow> string list \<Rightarrow> error + 'v list" where
  \<comment> \<open>The loop \<^verbatim>\<open>for ln in data_lines\<close> of \<^verbatim>\<open>parse_scalar_field\<close>; the second
      argument is \<^verbatim>\<open>values\<close>, and \<open>l\<close> is the source's \<^verbatim>\<open>ln\<close>.\<close>
  "scalar_loop float values [] = Inr values"
| "scalar_loop float values (l # rest) =
     (let l' = semicolons_blanked l
      in if l' = [] then scalar_loop float values rest
         else (case float l' of
                 None \<Rightarrow> Inl MalformedNumber
               | Some v \<Rightarrow> scalar_loop float (values @ [v]) rest))"

definition parse_scalar_field :: "(string \<Rightarrow> 'v option) \<Rightarrow> string list \<Rightarrow> error + 'v list" where
  "parse_scalar_field float lines =
     (case parse_internal_field_lines lines of
        Inl e \<Rightarrow> Inl e
      | Inr (data_lines, is_uniform) \<Rightarrow>
          if is_uniform
          then (case data_lines of
                  [] \<Rightarrow> Inl IndexError
                | d # _ \<Rightarrow>
                    let vstr = strip_chars ''()'' (strip d)
                    in (case py_split vstr of
                          [] \<Rightarrow> Inl IndexError
                        | first # _ \<Rightarrow>
                            (case float first of
                               None \<Rightarrow> Inl MalformedNumber
                             | Some v \<Rightarrow> Inr [v])))
          else scalar_loop float [] data_lines)"

definition float3 :: "(string \<Rightarrow> 'v option) \<Rightarrow> string list \<Rightarrow> error + ('v \<times> 'v \<times> 'v)" where
  \<comment> \<open>\<^verbatim>\<open>if len(parts) != 3: raise ValueError(...)\<close> followed by
      \<^verbatim>\<open>ux, uy, uz = map(float, parts)\<close>: the length is checked first, then the
      three conversions run from left to right.\<close>
  "float3 float parts =
     (case parts of
        [a, b, c] \<Rightarrow>
          (case float a of
             None \<Rightarrow> Inl MalformedNumber
           | Some ux \<Rightarrow>
               (case float b of
                  None \<Rightarrow> Inl MalformedNumber
                | Some uy \<Rightarrow>
                    (case float c of
                       None \<Rightarrow> Inl MalformedNumber
                     | Some uz \<Rightarrow> Inr (ux, uy, uz))))
      | _ \<Rightarrow> Inl ArityMismatch)"

definition vector_parts :: "string \<Rightarrow> string list" where
  \<comment> \<open>The first four lines of the body of the loop of \<^verbatim>\<open>parse_vector_field\<close>:
      \<^verbatim>\<open>ln.strip().rstrip(";")\<close>, then \<^verbatim>\<open>ln[1:-1]\<close> when the line starts with an
      opening and ends with a closing parenthesis, then \<^verbatim>\<open>ln.split()\<close>.\<close>
  "vector_parts l =
     (let l1 = rstrip_chars '';'' (strip l);
          l2 = (if startswith ''('' l1 \<and> endswith '')'' l1 then butlast (tl l1) else l1)
      in py_split l2)"

fun vector_loop ::
  "(string \<Rightarrow> 'v option) \<Rightarrow> ('v \<times> 'v \<times> 'v) list \<Rightarrow> string list \<Rightarrow> error + ('v \<times> 'v \<times> 'v) list" where
  \<comment> \<open>The loop \<^verbatim>\<open>for ln in data_lines\<close> of \<^verbatim>\<open>parse_vector_field\<close>; the second
      argument is \<^verbatim>\<open>vectors\<close>.\<close>
  "vector_loop float vectors [] = Inr vectors"
| "vector_loop float vectors (l # rest) =
     (case float3 float (vector_parts l) of
        Inl e \<Rightarrow> Inl e
      | Inr v \<Rightarrow> vector_loop float (vectors @ [v]) rest)"

definition parse_vector_field ::
  "(string \<Rightarrow> 'v option) \<Rightarrow> string list \<Rightarrow> error + ('v \<times> 'v \<times> 'v) list" where
  "parse_vector_field float lines =
     (case parse_internal_field_lines lines of
        Inl e \<Rightarrow> Inl e
      | Inr (data_lines, is_uniform) \<Rightarrow>
          if is_uniform
          then (case data_lines of
                  [] \<Rightarrow> Inl IndexError
                | d # _ \<Rightarrow>
                    let vstr = strip_chars ''()'' (strip d)
                    in (case float3 float (py_split vstr) of
                          Inl e \<Rightarrow> Inl e
                        | Inr v \<Rightarrow> Inr [v]))
          else vector_loop float [] data_lines)"

section \<open>A reader of number literals\<close>

text \<open>
  Concrete runs need a concrete \<open>float\<close>. \<open>py_float\<close> follows the grammar that
  \<^verbatim>\<open>float\<close> accepts on ASCII text: surrounding whitespace, an optional sign, then
  \<^verbatim>\<open>inf\<close>, \<^verbatim>\<open>infinity\<close> or \<^verbatim>\<open>nan\<close> in any case, or digits with an optional point and an
  optional exponent; an underscore may stand between two digits. It is a reader for the
  examples only, and every general theorem holds for any \<open>float\<close>. Where it departs from
  the builtin: the value of a finite literal is the exact rational it denotes, so the
  rounding to a binary64 number, the overflow of a large exponent to \<^verbatim>\<open>inf\<close> and the sign
  of a zero are not modelled, and on text with a code point above 127 it is not claimed
  to agree with \<^verbatim>\<open>float\<close>.
\<close>

datatype fval = Finite rat | PosInf | NegInf | NaN

definition c_isspace :: "char \<Rightarrow> bool" where
  \<comment> \<open>The whitespace of the C locale, which \<^verbatim>\<open>float\<close> strips.\<close>
  "c_isspace c \<longleftrightarrow> c \<in> set [CHR 0x09, CHR 0x0A, CHR 0x0B, CHR 0x0C, CHR 0x0D, CHR 0x20]"

definition is_ascii :: "char \<Rightarrow> bool" where
  "is_ascii c \<longleftrightarrow> \<not> digit7 c"

definition to_lower :: "char \<Rightarrow> char" where
  "to_lower c =
     (case map_of (zip ''ABCDEFGHIJKLMNOPQRSTUVWXYZ'' ''abcdefghijklmnopqrstuvwxyz'') c of
        None \<Rightarrow> c | Some l \<Rightarrow> l)"

definition digit_val :: "char \<Rightarrow> nat" where
  "digit_val c = (case map_of (zip ''0123456789'' [0 ..< 10]) c of None \<Rightarrow> 0 | Some d \<Rightarrow> d)"

definition digits_val :: "string \<Rightarrow> nat" where
  "digits_val ds = foldl (\<lambda>a c. 10 * a + digit_val c) 0 ds"

fun underscores_ok :: "char \<Rightarrow> string \<Rightarrow> bool" where
  \<comment> \<open>An underscore stands after a digit and before a digit; the first argument is
      the character before.\<close>
  "underscores_ok prev [] = (prev \<noteq> CHR ''_'')"
| "underscores_ok prev (c # cs) =
     ((if c = CHR ''_'' then is_digit prev else (prev = CHR ''_'' \<longrightarrow> is_digit c))
      \<and> underscores_ok c cs)"

definition scale10 :: "nat \<Rightarrow> int \<Rightarrow> rat" where
  "scale10 m e = (if 0 \<le> e then of_nat m * 10 ^ nat e else of_nat m / 10 ^ nat (- e))"

definition read_exponent :: "string \<Rightarrow> int option" where
  \<comment> \<open>What follows the mantissa: nothing, or \<^verbatim>\<open>e\<close>, an optional sign and digits.\<close>
  "read_exponent s =
     (case s of
        [] \<Rightarrow> Some 0
      | e # r \<Rightarrow>
          if e = CHR ''e'' \<or> e = CHR ''E''
          then (case r of
                  [] \<Rightarrow> None
                | sg # ds \<Rightarrow>
                    if sg = CHR ''-'' then
                      (if ds \<noteq> [] \<and> list_all is_digit ds then Some (- int (digits_val ds)) else None)
                    else if sg = CHR ''+'' then
                      (if ds \<noteq> [] \<and> list_all is_digit ds then Some (int (digits_val ds)) else None)
                    else
                      (if list_all is_digit r then Some (int (digits_val r)) else None))
          else None)"

definition read_number :: "string \<Rightarrow> rat option" where
  \<comment> \<open>Digits, an optional point, digits, an optional exponent; one digit at least
      before the exponent.\<close>
  "read_number s =
     (let ip = takeWhile is_digit s; r1 = dropWhile is_digit s;
          fp = (case r1 of [] \<Rightarrow> [] | c # r \<Rightarrow> if c = CHR ''.'' then takeWhile is_digit r else []);
          r2 = (case r1 of [] \<Rightarrow> [] | c # r \<Rightarrow> if c = CHR ''.'' then dropWhile is_digit r else r1)
      in if ip = [] \<and> fp = [] then None
         else (case read_exponent r2 of
                 None \<Rightarrow> None
               | Some e \<Rightarrow> Some (scale10 (digits_val (ip @ fp)) (e - int (length fp)))))"

definition read_unsigned :: "string \<Rightarrow> fval option" where
  "read_unsigned s =
     (let l = map to_lower s
      in if l = ''inf'' \<or> l = ''infinity'' then Some PosInf
         else if l = ''nan'' then Some NaN
         else map_option Finite (read_number s))"

definition negate :: "fval \<Rightarrow> fval" where
  "negate v = (case v of Finite r \<Rightarrow> Finite (- r) | PosInf \<Rightarrow> NegInf | NegInf \<Rightarrow> PosInf | NaN \<Rightarrow> NaN)"

definition py_float :: "string \<Rightarrow> fval option" where
  \<comment> \<open>Text with a code point above 127 has its whitespace turned into blanks first;
      the underscores are checked and removed; the whitespace of the C locale is
      stripped; the rest is a signed literal.\<close>
  "py_float s =
     (let t = (if list_all is_ascii s then s else map (\<lambda>c. if py_isspace c then CHR '' '' else c) s)
      in if \<not> underscores_ok (CHR 0x00) t then None
         else (case strip_with c_isspace (filter (\<lambda>c. c \<noteq> CHR ''_'') t) of
                 [] \<Rightarrow> None
               | c # r \<Rightarrow>
                   if c = CHR ''-'' then map_option negate (read_unsigned r)
                   else if c = CHR ''+'' then read_unsigned r
                   else read_unsigned (c # r)))"

section \<open>Notions that only the specification has\<close>

definition declared_count :: "string list \<Rightarrow> nat option" where
  \<comment> \<open>The number written on the count line. The source finds that line by its shape
      and never reads the number; the definition exists to state what the
      specification says about it.\<close>
  "declared_count lines =
     (case first_index (contains ''internalField'') lines of
        None \<Rightarrow> None
      | Some idx \<Rightarrow>
          (case first_index_from is_count_line lines idx of
             None \<Rightarrow> None
           | Some n_idx \<Rightarrow> Some (digits_val (strip (lines ! n_idx)))))"

definition spec_strip_line :: "string \<Rightarrow> string" where
  \<comment> \<open>The specification's wording for a scalar data line: "strip trailing \<^verbatim>\<open>;\<close> and
      whitespace".\<close>
  "spec_strip_line l = rstrip_with (\<lambda>c. c = CHR '';'' \<or> py_isspace c) l"

definition spec_uniform_scalar :: "(string \<Rightarrow> 'v option) \<Rightarrow> string \<Rightarrow> error + 'v list" where
  \<comment> \<open>The specification's wording for the scalar of a uniform entry, from the text after
      the uniform marker: strip a trailing \<^verbatim>\<open>;\<close> and the surrounding whitespace, strip the
      enclosing parentheses, split on whitespace, read the first token as a number and
      fail with \<open>MalformedNumber\<close> when it is none.\<close>
  "spec_uniform_scalar float after =
     (case py_split (strip_chars ''()'' (strip (spec_strip_line after))) of
        [] \<Rightarrow> Inl MalformedNumber
      | first # _ \<Rightarrow>
          (case float first of
             None \<Rightarrow> Inl MalformedNumber
           | Some v \<Rightarrow> Inr [v]))"

fun spec_scalar_values :: "(string \<Rightarrow> 'v option) \<Rightarrow> string list \<Rightarrow> error + 'v list" where
  \<comment> \<open>The specification's wording for the scalar values of a non-uniform block: strip
      as above, skip what became empty, read the rest as one number, keep the order.\<close>
  "spec_scalar_values float [] = Inr []"
| "spec_scalar_values float (l # ls) =
     (let t = spec_strip_line l
      in if t = [] then spec_scalar_values float ls
         else (case float t of
                 None \<Rightarrow> Inl MalformedNumber
               | Some v \<Rightarrow>
                   (case spec_scalar_values float ls of
                      Inl e \<Rightarrow> Inl e
                    | Inr vs \<Rightarrow> Inr (v # vs))))"

section \<open>Facts about the string methods\<close>

text \<open>
\<open>startswith\<close> and \<open>contains\<close> are Python's \<^verbatim>\<open>startswith\<close> and \<^verbatim>\<open>in\<close>: a prefix, and an
occurrence anywhere.
\<close>

lemma startswith_iff: "startswith p s \<longleftrightarrow> (\<exists>t. s = p @ t)"
  by (induction p s rule: startswith.induct) auto

lemma contains_iff: "contains sub s \<longleftrightarrow> (\<exists>a b. s = a @ sub @ b)"
proof (induction s)
  case Nil
  then show ?case by auto
next
  case (Cons c cs)
  show ?case
  proof
    assume "contains sub (c # cs)"
    then consider "startswith sub (c # cs)" | "contains sub cs" by auto
    then show "\<exists>a b. c # cs = a @ sub @ b"
    proof cases
      case 1
      then obtain t where "c # cs = sub @ t" by (auto simp: startswith_iff)
      then have "c # cs = [] @ sub @ t" by simp
      then show ?thesis by blast
    next
      case 2
      then obtain a b where "cs = a @ sub @ b" using Cons.IH by auto
      then have "c # cs = (c # a) @ sub @ b" by simp
      then show ?thesis by blast
    qed
  next
    assume "\<exists>a b. c # cs = a @ sub @ b"
    then obtain a b where ab: "c # cs = a @ sub @ b" by auto
    show "contains sub (c # cs)"
    proof (cases a)
      case Nil
      then have "startswith sub (c # cs)" using ab by (auto simp: startswith_iff)
      then show ?thesis by simp
    next
      case (Cons x a')
      then have "cs = a' @ sub @ b" using ab by simp
      then show ?thesis using Cons.IH by auto
    qed
  qed
qed

lemma contains_nonuniform_uniform:
  assumes "contains ''nonuniform'' l" shows "contains ''uniform'' l"
proof -
  from assms obtain a b where "l = a @ ''nonuniform'' @ b" by (auto simp: contains_iff)
  then have "l = (a @ ''non'') @ ''uniform'' @ b" by simp
  then show ?thesis unfolding contains_iff by blast
qed

lemma startswith_shorter:
  assumes "startswith p (u @ v)" "length p \<le> length u" shows "startswith p u"
proof -
  from assms(1) obtain t where t: "u @ v = p @ t" by (auto simp: startswith_iff)
  then have "take (length p) (u @ v) = p" by simp
  then have "take (length p) u = p" using assms(2) by simp
  then have "u = p @ drop (length p) u" by (metis append_take_drop_id)
  then show ?thesis unfolding startswith_iff by blast
qed

lemma startswith_paren_mem: "startswith ''('' t \<Longrightarrow> CHR ''('' \<in> set t"
  by (auto simp: startswith_iff)

lemma endswith_iff: "endswith p s \<longleftrightarrow> (\<exists>t. s = t @ p)"
proof -
  have "endswith p s \<longleftrightarrow> (\<exists>u. rev s = rev p @ u)"
    by (simp add: endswith_def startswith_iff)
  also have "\<dots> \<longleftrightarrow> (\<exists>t. s = t @ p)"
  proof
    assume "\<exists>u. rev s = rev p @ u"
    then obtain u where "rev s = rev p @ u" by blast
    then have "s = rev u @ p" by (metis rev_append rev_rev_ident)
    then show "\<exists>t. s = t @ p" by blast
  next
    assume "\<exists>t. s = t @ p"
    then obtain t where "s = t @ p" by blast
    then have "rev s = rev p @ rev t" by simp
    then show "\<exists>u. rev s = rev p @ u" by blast
  qed
  finally show ?thesis .
qed

text \<open>
\<^verbatim>\<open>split(sep, 1)\<close> cuts at the first occurrence: the occurrence that starts where no
earlier one could.
\<close>

lemma contains_length: "contains sub s \<Longrightarrow> length sub \<le> length s"
  by (auto simp: contains_iff)

lemma split_once_two:
  assumes "sep \<noteq> []" "contains sep s"
  shows "\<exists>a b. split_once sep acc s = [a, b]"
  using assms by (induction s arbitrary: acc) auto

lemma split_once_first:
  assumes "sep \<noteq> []" "\<not> contains sep (p @ butlast sep)"
  shows "split_once sep acc (p @ sep @ r) = [acc @ p, r]"
  using assms(2)
proof (induction p arbitrary: acc)
  case Nil
  obtain c cs where c: "sep @ r = c # cs" using assms(1) by (cases sep) auto
  have "startswith sep (sep @ r)" by (auto simp: startswith_iff)
  then have "split_once sep acc (sep @ r) = [acc, drop (length sep) (sep @ r)]"
    unfolding c by simp
  then show ?case by simp
next
  case (Cons x p)
  have ns: "\<not> startswith sep (x # p @ sep @ r)"
  proof
    assume s: "startswith sep (x # p @ sep @ r)"
    have "x # p @ sep @ r = (x # p @ butlast sep) @ ([last sep] @ r)"
      using assms(1) by simp
    moreover have "length sep \<le> length (x # p @ butlast sep)" by simp
    ultimately have "startswith sep (x # p @ butlast sep)"
      using s startswith_shorter by metis
    then show False using Cons.prems by simp
  qed
  have "\<not> contains sep (p @ butlast sep)" using Cons.prems by simp
  from Cons.IH [OF this, of "acc @ [x]"] ns show ?case by simp
qed

lemma first_occurrence_exists:
  assumes "sep \<noteq> []" "contains sep s"
  shows "\<exists>pre rest. s = pre @ sep @ rest \<and> \<not> contains sep (pre @ butlast sep)"
  using assms(2)
proof (induction s)
  case Nil
  then show ?case using assms(1) by simp
next
  case (Cons c cs)
  show ?case
  proof (cases "startswith sep (c # cs)")
    case True
    then obtain t where "c # cs = [] @ sep @ t" by (auto simp: startswith_iff)
    moreover have "\<not> contains sep ([] @ butlast sep)"
      using contains_length [of sep "butlast sep"] assms(1) by (cases sep) auto
    ultimately show ?thesis by blast
  next
    case False
    then have "contains sep cs" using Cons.prems by simp
    then obtain pre rest where pr: "cs = pre @ sep @ rest" "\<not> contains sep (pre @ butlast sep)"
      using Cons.IH by blast
    have "\<not> startswith sep (c # pre @ butlast sep)"
    proof
      assume "startswith sep (c # pre @ butlast sep)"
      then obtain t where "c # pre @ butlast sep = sep @ t" by (auto simp: startswith_iff)
      then have "c # cs = sep @ (t @ [last sep] @ rest)"
        using pr(1) assms(1)
        by (metis append.assoc append_Cons append_butlast_last_id append_Nil)
      then show False using False unfolding startswith_iff by blast
    qed
    then have "\<not> contains sep ((c # pre) @ butlast sep)" using pr(2) by simp
    moreover have "c # cs = (c # pre) @ sep @ rest" using pr(1) by simp
    ultimately show ?thesis by blast
  qed
qed

subsection \<open>Stripping\<close>

lemma rstrip_with_Nil [simp]: "rstrip_with P [] = []"
  by (simp add: rstrip_with_def)

lemma rstrip_with_append:
  assumes "\<forall>c\<in>set t. P c" shows "rstrip_with P (s @ t) = rstrip_with P s"
proof -
  have "dropWhile P (rev t @ rev s) = dropWhile P (rev s)"
    using assms by (intro dropWhile_append2) auto
  then show ?thesis by (simp add: rstrip_with_def)
qed

lemma rstrip_with_keep:
  assumes "s \<noteq> []" "\<not> P (last s)" shows "rstrip_with P s = s"
proof -
  have "rev s \<noteq> []" "\<not> P (hd (rev s))" using assms by (auto simp: hd_rev)
  then have "dropWhile P (rev s) = rev s" by (cases "rev s") auto
  then show ?thesis by (simp add: rstrip_with_def)
qed

lemma rstrip_with_none:
  assumes "\<forall>c\<in>set s. \<not> P c" shows "rstrip_with P s = s"
proof (cases s rule: rev_cases)
  case Nil
  then show ?thesis by simp
next
  case (snoc ys y)
  then show ?thesis using assms by (intro rstrip_with_keep) auto
qed

lemma rstrip_with_shape:
  "rstrip_with P s = [] \<or> \<not> P (last (rstrip_with P s))"
proof (cases "dropWhile P (rev s)")
  case Nil
  then show ?thesis by (simp add: rstrip_with_def)
next
  case (Cons x xs)
  then have "\<not> P x" by (metis hd_dropWhile list.sel(1) list.distinct(1))
  then show ?thesis using Cons by (simp add: rstrip_with_def)
qed

lemma rstrip_with_prefix: "\<exists>t. s = rstrip_with P s @ t \<and> (\<forall>c\<in>set t. P c)"
proof -
  have "rev s = takeWhile P (rev s) @ dropWhile P (rev s)" by simp
  then have "s = rev (dropWhile P (rev s)) @ rev (takeWhile P (rev s))"
    by (metis rev_append rev_rev_ident)
  moreover have "\<forall>c\<in>set (rev (takeWhile P (rev s))). P c"
    by (auto dest: set_takeWhileD)
  ultimately show ?thesis unfolding rstrip_with_def by blast
qed

lemma rstrip_with_hd:
  assumes "s \<noteq> []" "\<not> P (hd s)"
  shows "rstrip_with P s \<noteq> [] \<and> hd (rstrip_with P s) = hd s"
proof -
  obtain t where t: "s = rstrip_with P s @ t" "\<forall>c\<in>set t. P c"
    using rstrip_with_prefix by blast
  have "rstrip_with P s \<noteq> []"
  proof
    assume "rstrip_with P s = []"
    then have "s = t" using t(1) by simp
    then show False using assms t(2) by (cases s) auto
  qed
  then show ?thesis using t(1) by (metis hd_append2)
qed

lemma set_rstrip_with: "set (rstrip_with P s) \<subseteq> set s"
  by (auto simp: rstrip_with_def dest: set_dropWhileD)

lemma strip_with_shape:
  "strip_with P s = [] \<or> (\<not> P (hd (strip_with P s)) \<and> \<not> P (last (strip_with P s)))"
proof (cases "dropWhile P s")
  case Nil
  have "strip_with P s = rstrip_with P []"
    unfolding strip_with_def lstrip_with_def Nil ..
  then show ?thesis by simp
next
  case (Cons x xs)
  then have nx: "\<not> P (hd (dropWhile P s))" "dropWhile P s \<noteq> []"
    by (metis hd_dropWhile list.distinct(1))+
  from rstrip_with_hd [of "dropWhile P s" P, OF nx(2) nx(1)]
    rstrip_with_shape [of P "dropWhile P s"] nx(1)
  show ?thesis by (auto simp: strip_with_def lstrip_with_def)
qed

lemma strip_with_keep:
  assumes "s \<noteq> []" "\<not> P (hd s)" "\<not> P (last s)" shows "strip_with P s = s"
proof -
  have "dropWhile P s = s" using assms by (cases s) auto
  then show ?thesis using assms by (simp add: strip_with_def lstrip_with_def rstrip_with_keep)
qed

lemma strip_with_idem: "strip_with P (strip_with P s) = strip_with P s"
proof (cases "strip_with P s = []")
  case True
  then show ?thesis by (simp add: strip_with_def lstrip_with_def)
next
  case False
  then show ?thesis using strip_with_shape [of P s] by (auto intro: strip_with_keep)
qed

lemma strip_idem: "strip (strip s) = strip s"
  by (simp add: strip_def strip_with_idem)

lemma strip_with_append_trail:
  assumes "\<forall>c\<in>set t. P c" shows "strip_with P (s @ t) = strip_with P s"
proof -
  have "\<exists>u. dropWhile P (s @ t) = dropWhile P s @ u \<and> (\<forall>c\<in>set u. P c)"
  proof (cases "\<forall>c\<in>set s. P c")
    case True
    then have a: "dropWhile P (s @ t) = []" and b: "dropWhile P s = []" using assms by auto
    have "dropWhile P (s @ t) = dropWhile P s @ [] \<and> (\<forall>c\<in>set []. P c)"
      unfolding a b by simp
    then show ?thesis by blast
  next
    case False
    then obtain x where "x \<in> set s" "\<not> P x" by blast
    then have "dropWhile P (s @ t) = dropWhile P s @ t"
      by (rule dropWhile_append1)
    then show ?thesis using assms by blast
  qed
  then show ?thesis
    by (auto simp: strip_with_def lstrip_with_def rstrip_with_append)
qed

lemma set_strip: "set (strip s) \<subseteq> set s"
  by (auto simp: strip_def strip_with_def lstrip_with_def rstrip_with_def dest!: set_dropWhileD)

text \<open>
On text whose only semicolons trail it, blanking the semicolons and stripping is the
same as stripping the text before them.
\<close>

lemma semicolons_blanked_idem: "strip (semicolons_blanked s) = semicolons_blanked s"
  by (simp add: semicolons_blanked_def strip_idem)

lemma semicolons_blanked_trailing:
  assumes "CHR '';'' \<notin> set body" "\<forall>c\<in>set trail. c = CHR '';'' \<or> py_isspace c"
  shows "semicolons_blanked (body @ trail) = strip body"
proof -
  have b: "replace_char CHR '';'' CHR '' '' body = body"
    using assms(1) by (induction body) (auto simp: replace_char_def)
  have "py_isspace CHR '' ''" by (simp add: py_isspace_def)
  then have t: "\<forall>c\<in>set (replace_char CHR '';'' CHR '' '' trail). py_isspace c"
    using assms(2) by (auto simp: replace_char_def)
  have "replace_char CHR '';'' CHR '' '' (body @ trail)
        = body @ replace_char CHR '';'' CHR '' '' trail"
    using b by (simp add: replace_char_def)
  then show ?thesis
    using t by (simp add: semicolons_blanked_def strip_def strip_with_append_trail)
qed

subsection \<open>Splitting on whitespace\<close>

lemma split_ws_spaces:
  assumes "\<forall>c\<in>set t. py_isspace c"
  shows "split_ws cur t = (if cur = [] then [] else [cur])"
  using assms by (induction t arbitrary: cur) auto

lemma split_ws_trail:
  assumes "\<forall>c\<in>set t. py_isspace c"
  shows "split_ws cur (s @ t) = split_ws cur s"
  using assms by (induction s arbitrary: cur) (auto simp: split_ws_spaces)

lemma split_ws_lead: "split_ws [] (dropWhile py_isspace s) = split_ws [] s"
  by (induction s) auto

lemma py_split_strip: "py_split (strip s) = py_split s"
proof -
  obtain t where t: "dropWhile py_isspace s = rstrip_with py_isspace (dropWhile py_isspace s) @ t"
    "\<forall>c\<in>set t. py_isspace c"
    using rstrip_with_prefix by blast
  have "split_ws [] (rstrip_with py_isspace (dropWhile py_isspace s))
        = split_ws [] (rstrip_with py_isspace (dropWhile py_isspace s) @ t)"
    using t(2) by (simp add: split_ws_trail)
  also have "\<dots> = split_ws [] (dropWhile py_isspace s)" using t(1) by simp
  finally show ?thesis
    by (simp add: py_split_def strip_def strip_with_def lstrip_with_def split_ws_lead)
qed

section \<open>Facts about the scans\<close>

lemma first_index_Some_iff:
  "first_index P xs = Some i \<longleftrightarrow> i < length xs \<and> P (xs ! i) \<and> (\<forall>j<i. \<not> P (xs ! j))"
proof (induction xs arbitrary: i)
  case Nil
  then show ?case by simp
next
  case (Cons x xs)
  show ?case
  proof (cases "P x")
    case True
    then show ?thesis by (cases i) auto
  next
    case False
    show ?thesis
    proof (cases i)
      case 0
      then show ?thesis using False by auto
    next
      case (Suc k)
      have "(\<forall>j<Suc k. \<not> P ((x # xs) ! j)) \<longleftrightarrow> (\<forall>j<k. \<not> P (xs ! j))"
        using False by (auto simp: less_Suc_eq_0_disj)
      then show ?thesis using False Suc Cons.IH [of k] by auto
    qed
  qed
qed

lemma first_index_None_iff: "first_index P xs = None \<longleftrightarrow> (\<forall>x\<in>set xs. \<not> P x)"
  by (induction xs) auto

lemma first_index_from_Some_iff:
  "first_index_from P xs k = Some i \<longleftrightarrow>
     k \<le> i \<and> i < length xs \<and> P (xs ! i) \<and> (\<forall>j. k \<le> j \<and> j < i \<longrightarrow> \<not> P (xs ! j))"
proof (cases "k \<le> length xs")
  case True
  show ?thesis
  proof
    assume "first_index_from P xs k = Some i"
    then obtain j where j: "first_index P (drop k xs) = Some j" "i = k + j"
      by (auto simp: first_index_from_def)
    then have "j < length xs - k" "P (xs ! (k + j))" "\<forall>m<j. \<not> P (xs ! (k + m))"
      using True by (auto simp: first_index_Some_iff)
    moreover have "\<not> P (xs ! m)" if "k \<le> m" "m < i" for m
    proof -
      have "m - k < j" using that j by auto
      then have "\<not> P (xs ! (k + (m - k)))" using calculation(3) by blast
      then show ?thesis using that by simp
    qed
    ultimately show "k \<le> i \<and> i < length xs \<and> P (xs ! i) \<and> (\<forall>j. k \<le> j \<and> j < i \<longrightarrow> \<not> P (xs ! j))"
      using j by auto
  next
    assume r: "k \<le> i \<and> i < length xs \<and> P (xs ! i) \<and> (\<forall>j. k \<le> j \<and> j < i \<longrightarrow> \<not> P (xs ! j))"
    then have "first_index P (drop k xs) = Some (i - k)"
      by (auto simp: first_index_Some_iff)
    then show "first_index_from P xs k = Some i"
      using r by (simp add: first_index_from_def)
  qed
next
  case False
  then show ?thesis by (auto simp: first_index_from_def)
qed

lemma first_index_from_None_iff:
  "first_index_from P xs k = None \<longleftrightarrow> (\<forall>j. k \<le> j \<and> j < length xs \<longrightarrow> \<not> P (xs ! j))"
proof -
  have "first_index_from P xs k = None \<longleftrightarrow> (\<forall>x\<in>set (drop k xs). \<not> P x)"
    by (simp add: first_index_from_def first_index_None_iff)
  also have "\<dots> \<longleftrightarrow> (\<forall>j. k \<le> j \<and> j < length xs \<longrightarrow> \<not> P (xs ! j))"
  proof
    assume a: "\<forall>x\<in>set (drop k xs). \<not> P x"
    show "\<forall>j. k \<le> j \<and> j < length xs \<longrightarrow> \<not> P (xs ! j)"
    proof (intro allI impI)
      fix j assume j: "k \<le> j \<and> j < length xs"
      then have "drop k xs ! (j - k) = xs ! j" "j - k < length (drop k xs)" by auto
      then have "xs ! j \<in> set (drop k xs)" by (metis nth_mem)
      then show "\<not> P (xs ! j)" using a by blast
    qed
  next
    assume a: "\<forall>j. k \<le> j \<and> j < length xs \<longrightarrow> \<not> P (xs ! j)"
    show "\<forall>x\<in>set (drop k xs). \<not> P x"
    proof
      fix x assume "x \<in> set (drop k xs)"
      then obtain m where m: "m < length (drop k xs)" "drop k xs ! m = x"
        by (auto simp: in_set_conv_nth)
      then have "k + m < length xs" "xs ! (k + m) = x" by auto
      then show "\<not> P x" using a by (metis le_add1)
    qed
  qed
  finally show ?thesis .
qed

text \<open>
A count line holds whitespace and digits only, so it never holds the marker of the
entry.
\<close>

lemma count_line_chars:
  assumes "is_count_line s" shows "\<forall>c\<in>set s. py_isspace c \<or> is_digit c"
proof -
  let ?t = "dropWhile py_isspace s"
  have r: "list_all py_isspace (dropWhile is_digit ?t)"
    using assms by (simp add: is_count_line_def Let_def)
  have "s = takeWhile py_isspace s @ takeWhile is_digit ?t @ dropWhile is_digit ?t"
    by simp
  then have "set s = set (takeWhile py_isspace s) \<union> set (takeWhile is_digit ?t)
                     \<union> set (dropWhile is_digit ?t)"
    by (metis set_append sup_assoc)
  then show ?thesis
    using r by (auto simp: list_all_iff dest: set_takeWhileD)
qed

lemma count_line_no_marker:
  assumes "is_count_line s" shows "\<not> contains ''internalField'' s"
proof
  assume "contains ''internalField'' s"
  then obtain a b where "s = a @ ''internalField'' @ b" by (auto simp: contains_iff)
  then have "CHR ''i'' \<in> set s" by simp
  then have "py_isspace CHR ''i'' \<or> is_digit CHR ''i''" using count_line_chars [OF assms] by blast
  then show False by (simp add: py_isspace_def is_digit_def)
qed

section \<open>Facts about the locator\<close>

text \<open>
The collecting loop keeps, up to the terminator, the stripped lines that are neither
empty nor comments.
\<close>

lemma collect_data_lines_eq:
  "collect_data_lines acc ls =
     acc @ filter (\<lambda>s. s \<noteq> [] \<and> \<not> startswith ''//'' s)
             (map strip (takeWhile (\<lambda>l. \<not> is_terminator (strip l)) ls))"
  by (induction ls arbitrary: acc) (auto simp: Let_def)

text \<open>
The two branches of the locator, each under the condition that selects it.
\<close>

lemma uniform_result:
  assumes "first_index (contains ''internalField'') lines = Some idx"
    and "lines ! idx = pre @ ''uniform'' @ rest"
    and "\<not> contains ''uniform'' (pre @ ''unifor'')"
    and "\<not> contains ''nonuniform'' (lines ! idx)"
  shows "parse_internal_field_lines lines = Inr ([semicolons_blanked rest], True)"
proof -
  have "contains ''uniform'' (lines ! idx)"
    unfolding contains_iff assms(2) by blast
  moreover have "split_once ''uniform'' [] (pre @ ''uniform'' @ rest) = [[] @ pre, rest]"
    using assms(3) by (intro split_once_first) auto
  ultimately show ?thesis
    using assms(1,2,4) by (simp add: parse_internal_field_lines_def)
qed

lemma locator_nonuniform:
  assumes "first_index (contains ''internalField'') lines = Some idx"
    and "\<not> (contains ''uniform'' (lines ! idx) \<and> \<not> contains ''nonuniform'' (lines ! idx))"
  shows "parse_internal_field_lines lines =
     (case first_index_from is_count_line lines idx of
        None \<Rightarrow> Inl MissingCount
      | Some n_idx \<Rightarrow>
          (case first_index_from (\<lambda>l. strip l = ''('') lines (n_idx + 1) of
             None \<Rightarrow> Inl MissingOpenDelimiter
           | Some i \<Rightarrow> Inr (collect_data_lines [] (drop (i + 1) lines), False)))"
proof -
  have f: "(contains ''uniform'' (lines ! idx) \<and> \<not> contains ''nonuniform'' (lines ! idx)) = False"
    using assms(2) by blast
  show ?thesis
    unfolding parse_internal_field_lines_def assms(1) option.case Let_def f if_False ..
qed

lemma nonuniform_result:
  assumes "parse_internal_field_lines lines = Inr (data_lines, False)"
  shows "\<exists>i<length lines. strip (lines ! i) = ''(''
           \<and> data_lines = collect_data_lines [] (drop (Suc i) lines)"
  using assms
  by (auto simp: parse_internal_field_lines_def first_index_from_Some_iff Let_def
           split: option.splits if_splits list.splits)

lemma count_line_replaced:
  assumes idx: "first_index (contains ''internalField'') lines = Some idx"
    and n: "first_index_from is_count_line lines idx = Some n_idx"
    and c: "is_count_line c"
  shows "parse_internal_field_lines (lines[n_idx := c]) = parse_internal_field_lines lines"
proof -
  let ?ls = "lines[n_idx := c]"
  let ?open = "\<lambda>l. strip l = ''(''"
  from idx have i: "idx < length lines" "contains ''internalField'' (lines ! idx)"
    "\<forall>j<idx. \<not> contains ''internalField'' (lines ! j)"
    by (auto simp: first_index_Some_iff)
  from n have m: "idx \<le> n_idx" "n_idx < length lines" "is_count_line (lines ! n_idx)"
    "\<forall>j. idx \<le> j \<and> j < n_idx \<longrightarrow> \<not> is_count_line (lines ! j)"
    by (auto simp: first_index_from_Some_iff)
  have "idx \<noteq> n_idx" using i(2) m(3) count_line_no_marker by blast
  then have ne: "idx < n_idx" using m(1) by simp
  have 1: "first_index (contains ''internalField'') ?ls = Some idx"
    unfolding first_index_Some_iff using i ne by simp
  have 2: "?ls ! idx = lines ! idx" using ne by simp
  have 3: "first_index_from is_count_line ?ls idx = Some n_idx"
    unfolding first_index_from_Some_iff using m c by simp
  have 4: "drop k ?ls = drop k lines" if "n_idx < k" for k
    using that by (simp add: drop_update_cancel)
  have 5: "first_index_from ?open ?ls (n_idx + 1) = first_index_from ?open lines (n_idx + 1)"
    unfolding first_index_from_def by (simp add: 4)
  show ?thesis
  proof (cases "contains ''uniform'' (lines ! idx) \<and> \<not> contains ''nonuniform'' (lines ! idx)")
    case True
    then show ?thesis
      unfolding parse_internal_field_lines_def 1 idx option.case Let_def 2 by simp
  next
    case False
    then have F: "\<not> (contains ''uniform'' (?ls ! idx) \<and> \<not> contains ''nonuniform'' (?ls ! idx))"
      unfolding 2 .
    have l: "parse_internal_field_lines ?ls =
       (case first_index_from ?open lines (n_idx + 1) of
             None \<Rightarrow> Inl MissingOpenDelimiter
           | Some i \<Rightarrow> Inr (collect_data_lines [] (drop (i + 1) ?ls), False))"
      unfolding locator_nonuniform [OF 1 F] 3 option.case 5 ..
    have r: "parse_internal_field_lines lines =
       (case first_index_from ?open lines (n_idx + 1) of
             None \<Rightarrow> Inl MissingOpenDelimiter
           | Some i \<Rightarrow> Inr (collect_data_lines [] (drop (i + 1) lines), False))"
      unfolding locator_nonuniform [OF idx False] n option.case ..
    show ?thesis
    proof (cases "first_index_from ?open lines (n_idx + 1)")
      case None
      show ?thesis unfolding l r None option.case ..
    next
      case (Some k)
      then have "n_idx < k + 1" unfolding first_index_from_Some_iff by simp
      then have "drop (k + 1) ?ls = drop (k + 1) lines" by (rule 4)
      then show ?thesis unfolding l r Some option.case by simp
    qed
  qed
qed

section \<open>Facts about the extractors\<close>

lemma all_Some_values:
  assumes "None \<notin> set xs" shows "\<exists>vs. xs = map Some vs"
  using assms
proof (induction xs)
  case Nil
  then show ?case by simp
next
  case (Cons x xs)
  then obtain vs v where "xs = map Some vs" "x = Some v" by (cases x) auto
  then have "x # xs = map Some (v # vs)" by simp
  then show ?case by (rule exI)
qed

lemma scalar_loop_values:
  assumes "map float (filter (\<lambda>t. t \<noteq> []) (map semicolons_blanked ls)) = map Some vs"
  shows "scalar_loop float acc ls = Inr (acc @ vs)"
  using assms
proof (induction ls arbitrary: acc vs)
  case Nil
  then show ?case by simp
next
  case (Cons l ls)
  show ?case
  proof (cases "semicolons_blanked l = []")
    case True
    then show ?thesis using Cons by simp
  next
    case False
    with Cons.prems obtain v vs' where v: "vs = v # vs'" "float (semicolons_blanked l) = Some v"
      "map float (filter (\<lambda>t. t \<noteq> []) (map semicolons_blanked ls)) = map Some vs'"
      by (cases vs) auto
    then show ?thesis using False Cons.IH [of vs' "acc @ [v]"] by simp
  qed
qed

lemma scalar_loop_malformed:
  assumes "None \<in> set (map float (filter (\<lambda>t. t \<noteq> []) (map semicolons_blanked ls)))"
  shows "scalar_loop float acc ls = Inl MalformedNumber"
  using assms
proof (induction ls arbitrary: acc)
  case Nil
  then show ?case by simp
next
  case (Cons l ls)
  show ?case
  proof (cases "semicolons_blanked l = []")
    case True
    then show ?thesis using Cons by simp
  next
    case False
    show ?thesis
    proof (cases "float (semicolons_blanked l)")
      case None
      then show ?thesis using False by simp
    next
      case (Some v)
      then have "None \<in> set (map float (filter (\<lambda>t. t \<noteq> []) (map semicolons_blanked ls)))"
        using Cons.prems False by auto
      then show ?thesis using False Some Cons.IH by simp
    qed
  qed
qed

lemma float3_arity:
  "length parts \<noteq> 3 \<Longrightarrow> float3 float parts = Inl ArityMismatch"
  by (auto simp: float3_def split: list.splits)

lemma float3_malformed:
  "length parts = 3 \<Longrightarrow> None \<in> set (map float parts) \<Longrightarrow> float3 float parts = Inl MalformedNumber"
  by (auto simp: float3_def split: list.splits option.splits)

lemma float3_values:
  "map float parts = [Some x, Some y, Some z] \<Longrightarrow> float3 float parts = Inr (x, y, z)"
  by (auto simp: float3_def split: list.splits)

lemma vector_loop_values:
  assumes "map (\<lambda>l. float3 float (vector_parts l)) ls = map Inr vs"
  shows "vector_loop float acc ls = Inr (acc @ vs)"
  using assms
proof (induction ls arbitrary: acc vs)
  case Nil
  then show ?case by simp
next
  case (Cons l ls)
  then obtain v vs' where v: "vs = v # vs'" "float3 float (vector_parts l) = Inr v"
    "map (\<lambda>l. float3 float (vector_parts l)) ls = map Inr vs'"
    by (cases vs) auto
  then show ?case using Cons.IH [of vs' "acc @ [v]"] by simp
qed

lemma vector_loop_first_failure:
  assumes "map (\<lambda>l. float3 float (vector_parts l)) good = map Inr vs"
    and "float3 float (vector_parts bad) = Inl e"
  shows "vector_loop float acc (good @ bad # rest) = Inl e"
  using assms(1)
proof (induction good arbitrary: acc vs)
  case Nil
  then show ?case using assms(2) by simp
next
  case (Cons l good)
  then obtain v vs' where v: "vs = v # vs'" "float3 float (vector_parts l) = Inr v"
    "map (\<lambda>l. float3 float (vector_parts l)) good = map Inr vs'"
    by (cases vs) auto
  then show ?case using Cons.IH [of vs' "acc @ [v]"] by simp
qed

text \<open>
A parenthesised line loses one parenthesis on each side, whatever stands inside and
however many semicolons follow; a line without parentheses and without semicolons of
its own is split as it is.
\<close>

lemma vector_parts_parenthesised:
  assumes "\<forall>c\<in>set semis. c = CHR '';''"
  shows "vector_parts (''('' @ s @ '')'' @ semis) = py_split s"
proof -
  let ?l = "''('' @ s @ '')'' @ semis"
  have sp: "\<not> py_isspace CHR ''(''" "\<not> py_isspace CHR '')''" "\<not> py_isspace CHR '';''"
    by (simp_all add: py_isspace_def)
  have "\<not> py_isspace (last ?l)" using assms sp
    by (cases semis rule: rev_cases) auto
  then have 1: "strip ?l = ?l" using sp
    by (simp add: strip_def strip_with_keep)
  have "rstrip_chars '';'' ((''('' @ s @ '')'') @ semis) = rstrip_chars '';'' (''('' @ s @ '')'')"
    unfolding rstrip_chars_def using assms by (intro rstrip_with_append) auto
  also have "\<dots> = ''('' @ s @ '')''"
    unfolding rstrip_chars_def by (intro rstrip_with_keep) auto
  finally have 2: "rstrip_chars '';'' ?l = ''('' @ s @ '')''" by simp
  have 3: "startswith ''('' (''('' @ s @ '')'')" "endswith '')'' (''('' @ s @ '')'')"
    by (auto simp: endswith_def)
  have 4: "butlast (tl (''('' @ s @ '')'')) = s" by (simp add: butlast_append)
  show ?thesis
    unfolding vector_parts_def 1 2 Let_def using 3 4 by simp
qed

lemma vector_parts_bare:
  assumes "CHR '';'' \<notin> set s" "CHR ''('' \<notin> set s" "\<forall>c\<in>set semis. c = CHR '';''"
  shows "vector_parts (s @ semis) = py_split s"
proof -
  have sp: "\<not> py_isspace CHR '';''" by (simp add: py_isspace_def)
  have "\<exists>t. rstrip_chars '';'' (strip (s @ semis)) = t \<and> set t \<subseteq> set s \<and> py_split t = py_split s"
  proof (cases semis rule: rev_cases)
    case Nil
    have "\<forall>c\<in>set (strip s). \<not> c \<in> set '';''" using assms(1) set_strip by fastforce
    then have "rstrip_chars '';'' (strip s) = strip s"
      unfolding rstrip_chars_def by (rule rstrip_with_none)
    then show ?thesis using Nil set_strip by (simp add: py_split_strip)
  next
    case (snoc ys y)
    then have y: "y = CHR '';''" using assms(3) by simp
    have l: "dropWhile py_isspace (s @ semis) = dropWhile py_isspace s @ semis"
    proof (cases "\<forall>c\<in>set s. py_isspace c")
      case True
      then have "dropWhile py_isspace s = []" by simp
      moreover have "dropWhile py_isspace (s @ semis) = dropWhile py_isspace semis"
        using True by (intro dropWhile_append2) auto
      moreover have "dropWhile py_isspace semis = semis"
        using assms(3) sp by (cases semis) auto
      ultimately show ?thesis by simp
    next
      case False
      then obtain x where "x \<in> set s" "\<not> py_isspace x" by blast
      then show ?thesis by (rule dropWhile_append1)
    qed
    have "rstrip_with py_isspace (dropWhile py_isspace s @ semis) = dropWhile py_isspace s @ semis"
      using snoc y sp by (intro rstrip_with_keep) auto
    then have st: "strip (s @ semis) = dropWhile py_isspace s @ semis"
      by (simp add: strip_def strip_with_def lstrip_with_def l)
    have "rstrip_chars '';'' (dropWhile py_isspace s @ semis) = rstrip_chars '';'' (dropWhile py_isspace s)"
      unfolding rstrip_chars_def using assms(3) by (intro rstrip_with_append) auto
    also have "\<dots> = dropWhile py_isspace s"
      unfolding rstrip_chars_def using assms(1) by (intro rstrip_with_none) (auto dest: set_dropWhileD)
    finally have "rstrip_chars '';'' (strip (s @ semis)) = dropWhile py_isspace s"
      using st by simp
    then show ?thesis
      by (auto simp: py_split_def split_ws_lead dest: set_dropWhileD)
  qed
  then obtain t where t: "rstrip_chars '';'' (strip (s @ semis)) = t" "set t \<subseteq> set s"
    "py_split t = py_split s" by blast
  then have "\<not> startswith ''('' t" using assms(2) startswith_paren_mem by blast
  then show ?thesis using t by (simp add: vector_parts_def)
qed

section \<open>C1: a block that is never closed\<close>

text \<open>
Claim C1. The specification says that when the end of the input is reached while the
lines of a non-uniform block are collected, before any terminator line (\<^verbatim>\<open>)\<close> or
\<^verbatim>\<open>);\<close>), the parse fails with a missing-close-delimiter error. The source has no such
failure: the collecting loop runs to the end of the input and returns what it gathered.
On the file below, cut after the second of three values, the locator succeeds with the
two lines it saw.
\<close>

theorem unterminated_block_is_returned:
  "parse_internal_field_lines
     [''internalField   nonuniform List<scalar>\<newline>'', ''3\<newline>'', ''(\<newline>'',
      ''0.1\<newline>'', ''0.2\<newline>'']
   = Inr ([''0.1'', ''0.2''], False)"
  by code_simp

text \<open>
Claim C1, as the code has it. In a non-uniform file whose count line and opening
parenthesis are found, when no line after the opening parenthesis is a terminator, the
locator does not fail: it succeeds and returns every line up to the end of the input,
stripped, that is neither empty nor a comment.
\<close>

theorem unterminated_block_in_general:
  assumes "first_index (contains ''internalField'') lines = Some idx"
    and "\<not> (contains ''uniform'' (lines ! idx) \<and> \<not> contains ''nonuniform'' (lines ! idx))"
    and "first_index_from is_count_line lines idx = Some n_idx"
    and "first_index_from (\<lambda>l. strip l = ''('') lines (n_idx + 1) = Some i"
    and "\<forall>l\<in>set (drop (i + 1) lines). \<not> is_terminator (strip l)"
  shows "parse_internal_field_lines lines =
           Inr (filter (\<lambda>s. s \<noteq> [] \<and> \<not> startswith ''//'' s) (map strip (drop (i + 1) lines)), False)"
proof -
  have tw: "takeWhile (\<lambda>l. \<not> is_terminator (strip l)) (drop (i + 1) lines) = drop (i + 1) lines"
    using assms(5) by (simp add: takeWhile_eq_all_conv)
  show ?thesis
    unfolding locator_nonuniform [OF assms(1,2)] assms(3,4) option.case collect_data_lines_eq tw
    by simp
qed

text \<open>
A vector block cut after its first value and a comment.
\<close>

theorem unterminated_block_in_general_witness:
  "parse_internal_field_lines
     [''internalField   nonuniform List<vector>\<newline>'', ''2\<newline>'', ''(\<newline>'',
      ''(1 0 0)\<newline>'', ''// cut here\<newline>'']
   = Inr ([''(1 0 0)''], False)"
proof -
  have 1: "first_index (contains ''internalField'')
     [''internalField   nonuniform List<vector>\<newline>'', ''2\<newline>'', ''(\<newline>'',
      ''(1 0 0)\<newline>'', ''// cut here\<newline>''] = Some 0"
    by code_simp
  have 2: "\<not> (contains ''uniform''
     ([''internalField   nonuniform List<vector>\<newline>'', ''2\<newline>'', ''(\<newline>'',
      ''(1 0 0)\<newline>'', ''// cut here\<newline>''] ! 0)
     \<and> \<not> contains ''nonuniform''
     ([''internalField   nonuniform List<vector>\<newline>'', ''2\<newline>'', ''(\<newline>'',
      ''(1 0 0)\<newline>'', ''// cut here\<newline>''] ! 0))"
    by code_simp
  have 3: "first_index_from is_count_line
     [''internalField   nonuniform List<vector>\<newline>'', ''2\<newline>'', ''(\<newline>'',
      ''(1 0 0)\<newline>'', ''// cut here\<newline>''] 0 = Some 1"
    by code_simp
  have 4: "first_index_from (\<lambda>l. strip l = ''('')
     [''internalField   nonuniform List<vector>\<newline>'', ''2\<newline>'', ''(\<newline>'',
      ''(1 0 0)\<newline>'', ''// cut here\<newline>''] (1 + 1) = Some 2"
    by code_simp
  have 5: "\<forall>l\<in>set (drop (2 + 1)
     [''internalField   nonuniform List<vector>\<newline>'', ''2\<newline>'', ''(\<newline>'',
      ''(1 0 0)\<newline>'', ''// cut here\<newline>'']). \<not> is_terminator (strip l)"
    by code_simp
  have 6: "filter (\<lambda>s. s \<noteq> [] \<and> \<not> startswith ''//'' s) (map strip (drop (2 + 1)
     [''internalField   nonuniform List<vector>\<newline>'', ''2\<newline>'', ''(\<newline>'',
      ''(1 0 0)\<newline>'', ''// cut here\<newline>''])) = [''(1 0 0)'']"
    by code_simp
  show ?thesis
    using unterminated_block_in_general [OF 1 2 3 4 5] unfolding 6 .
qed

section \<open>C2: the declared count\<close>

text \<open>
Claim C2. The specification says that a count of parsed entries that differs from the
declared count is reported to the caller as metadata. The source returns the list of
values and nothing else, and never reads the number on the count line. The two files
below differ in the count line only; the first declares the two values it has, the
second declares three; both give the same result, so nothing in the result tells the
mismatch.
\<close>

theorem count_mismatch_is_silent:
  "declared_count
     [''internalField   nonuniform List<scalar>\<newline>'', ''2\<newline>'', ''(\<newline>'',
      ''0.1\<newline>'', ''0.2\<newline>'', '')\<newline>''] = Some 2
   \<and> declared_count
     [''internalField   nonuniform List<scalar>\<newline>'', ''3\<newline>'', ''(\<newline>'',
      ''0.1\<newline>'', ''0.2\<newline>'', '')\<newline>''] = Some 3
   \<and> parse_scalar_field py_float
     [''internalField   nonuniform List<scalar>\<newline>'', ''2\<newline>'', ''(\<newline>'',
      ''0.1\<newline>'', ''0.2\<newline>'', '')\<newline>''] = Inr [Finite (1 / 10), Finite (1 / 5)]
   \<and> parse_scalar_field py_float
     [''internalField   nonuniform List<scalar>\<newline>'', ''3\<newline>'', ''(\<newline>'',
      ''0.1\<newline>'', ''0.2\<newline>'', '')\<newline>''] = Inr [Finite (1 / 10), Finite (1 / 5)]"
  by code_simp

text \<open>
Claim C2, as the code has it. In a non-uniform file the count line marks where to look
for the opening parenthesis and is not read further: with any other count line in its
place the scalar and the vector parse give the same result, success or failure. A
mismatch between the declared count and the number of entries therefore neither fails
the parse nor shows in what it returns.
\<close>

theorem declared_count_is_not_read:
  assumes "first_index (contains ''internalField'') lines = Some idx"
    and "first_index_from is_count_line lines idx = Some n_idx"
    and "is_count_line c"
  shows "parse_scalar_field float (lines[n_idx := c]) = parse_scalar_field float lines
       \<and> parse_vector_field float' (lines[n_idx := c]) = parse_vector_field float' lines"
  using count_line_replaced [OF assms]
  by (simp add: parse_scalar_field_def parse_vector_field_def)

text \<open>
The count 700 in place of 2, over two values.
\<close>

theorem declared_count_is_not_read_witness:
  "parse_scalar_field py_float
     [''internalField   nonuniform List<scalar>\<newline>'', ''700\<newline>'', ''(\<newline>'',
      ''0.1\<newline>'', ''0.2\<newline>'', '')\<newline>'']
   = parse_scalar_field py_float
     [''internalField   nonuniform List<scalar>\<newline>'', ''2\<newline>'', ''(\<newline>'',
      ''0.1\<newline>'', ''0.2\<newline>'', '')\<newline>'']"
proof -
  have 1: "first_index (contains ''internalField'')
     [''internalField   nonuniform List<scalar>\<newline>'', ''2\<newline>'', ''(\<newline>'',
      ''0.1\<newline>'', ''0.2\<newline>'', '')\<newline>''] = Some 0"
    by code_simp
  have 2: "first_index_from is_count_line
     [''internalField   nonuniform List<scalar>\<newline>'', ''2\<newline>'', ''(\<newline>'',
      ''0.1\<newline>'', ''0.2\<newline>'', '')\<newline>''] 0 = Some 1"
    by code_simp
  have 3: "is_count_line ''700\<newline>''" by code_simp
  have u: "[''internalField   nonuniform List<scalar>\<newline>'', ''2\<newline>'', ''(\<newline>'',
      ''0.1\<newline>'', ''0.2\<newline>'', '')\<newline>''][1 := ''700\<newline>'']
    = [''internalField   nonuniform List<scalar>\<newline>'', ''700\<newline>'', ''(\<newline>'',
      ''0.1\<newline>'', ''0.2\<newline>'', '')\<newline>'']"
    by code_simp
  from declared_count_is_not_read [OF 1 2 3, of py_float, THEN conjunct1]
  show ?thesis unfolding u .
qed

section \<open>C3: uniform or non-uniform\<close>

text \<open>
Claim C3. For every sequence of lines with an entry line (the first line that contains
\<^verbatim>\<open>internalField\<close>), the locator classifies the entry as uniform exactly when that line
contains \<^verbatim>\<open>uniform\<close> and does not contain \<^verbatim>\<open>nonuniform\<close>. In particular a line that
contains \<^verbatim>\<open>nonuniform\<close> contains \<^verbatim>\<open>uniform\<close> too, as an infix, and is never
classified as uniform.
\<close>

theorem uniform_classification:
  assumes "first_index (contains ''internalField'') lines = Some idx"
  shows "((\<exists>data_lines. parse_internal_field_lines lines = Inr (data_lines, True)) \<longleftrightarrow>
            contains ''uniform'' (lines ! idx) \<and> \<not> contains ''nonuniform'' (lines ! idx))
       \<and> (contains ''nonuniform'' (lines ! idx) \<longrightarrow>
            contains ''uniform'' (lines ! idx)
            \<and> (\<forall>data_lines. parse_internal_field_lines lines \<noteq> Inr (data_lines, True)))"
proof -
  let ?l = "lines ! idx"
  have uni: "\<exists>d. parse_internal_field_lines lines = Inr (d, True)"
    if u: "contains ''uniform'' ?l" and nn: "\<not> contains ''nonuniform'' ?l"
  proof -
    obtain a b where "split_once ''uniform'' [] ?l = [a, b]"
      using split_once_two [of "''uniform''" ?l "[]"] u by auto
    then show ?thesis
      using assms u nn by (simp add: parse_internal_field_lines_def)
  qed
  have non: "parse_internal_field_lines lines \<noteq> Inr (d, True)"
    if "\<not> (contains ''uniform'' ?l \<and> \<not> contains ''nonuniform'' ?l)" for d
    using assms that
    by (auto simp: parse_internal_field_lines_def split: option.splits)
  show ?thesis
    using uni non contains_nonuniform_uniform by blast
qed

text \<open>
A uniform entry, and a line that combines both markers.
\<close>

theorem uniform_classification_witness:
  "(\<exists>data_lines. parse_internal_field_lines [''internalField   uniform 4.2;\<newline>'']
       = Inr (data_lines, True))
   \<and> contains ''uniform'' ''internalField nonuniform uniform 1;\<newline>''
   \<and> (\<forall>data_lines. parse_internal_field_lines [''internalField nonuniform uniform 1;\<newline>'']
         \<noteq> Inr (data_lines, True))"
proof -
  have a1: "first_index (contains ''internalField'') [''internalField   uniform 4.2;\<newline>''] = Some 0"
    by code_simp
  have a2: "contains ''uniform'' ([''internalField   uniform 4.2;\<newline>''] ! 0)
            \<and> \<not> contains ''nonuniform'' ([''internalField   uniform 4.2;\<newline>''] ! 0)"
    by code_simp
  have b1: "first_index (contains ''internalField'') [''internalField nonuniform uniform 1;\<newline>''] = Some 0"
    by code_simp
  have b2: "contains ''nonuniform'' ([''internalField nonuniform uniform 1;\<newline>''] ! 0)"
    by code_simp
  have a: "\<exists>data_lines. parse_internal_field_lines [''internalField   uniform 4.2;\<newline>'']
       = Inr (data_lines, True)"
    using uniform_classification [OF a1, THEN conjunct1] a2 by (rule iffD2)
  have b: "contains ''uniform'' ([''internalField nonuniform uniform 1;\<newline>''] ! 0)
            \<and> (\<forall>data_lines. parse_internal_field_lines [''internalField nonuniform uniform 1;\<newline>'']
                  \<noteq> Inr (data_lines, True))"
    using uniform_classification [OF b1, THEN conjunct2] b2 by (rule mp)
  have n: "[''internalField nonuniform uniform 1;\<newline>''] ! 0 = ''internalField nonuniform uniform 1;\<newline>''"
    by simp
  show ?thesis using a b unfolding n by (intro conjI) (elim conjE, assumption)+
qed

section \<open>C4: the scalar of a uniform entry\<close>

text \<open>
Claim C4. The specification says that the scalar of a uniform entry is the number read
from the first whitespace token after the uniform marker, with the trailing \<^verbatim>\<open>;\<close> and the
enclosing parentheses stripped, and that a first token that is no number fails with
\<open>MalformedNumber\<close>. The source replaces every \<^verbatim>\<open>;\<close> of the text after the marker by a
blank before it splits: a semicolon before or inside the value separates tokens instead
of spoiling one. After the marker, \<^verbatim>\<open>;4.2\<close> and \<^verbatim>\<open>4.2;extra;\<close> both have a first token
that is no number in the wording of the specification, and both are read as 4.2.
\<close>

theorem semicolon_inside_uniform_value:
  "parse_scalar_field py_float [''internalField uniform ;4.2\<newline>''] = Inr [Finite (21 / 5)]
   \<and> spec_uniform_scalar py_float '' ;4.2\<newline>'' = Inl MalformedNumber
   \<and> parse_scalar_field py_float [''internalField   uniform 4.2;extra;\<newline>''] = Inr [Finite (21 / 5)]
   \<and> spec_uniform_scalar py_float '' 4.2;extra;\<newline>'' = Inl MalformedNumber"
  by code_simp

text \<open>
Claim C4, as the code has it. For every file whose entry line is uniform, the line
has a first occurrence of \<^verbatim>\<open>uniform\<close>. Take the text after it, replace every \<^verbatim>\<open>;\<close> by a
blank, strip the surrounding whitespace and then the enclosing parentheses, and split
on whitespace. The scalar extraction returns the one-element list of the \<^verbatim>\<open>float\<close> value
of the first token, whatever tokens follow; it fails with \<open>MalformedNumber\<close> when
\<^verbatim>\<open>float\<close> rejects the first token, and with \<^verbatim>\<open>IndexError\<close> when there is no token.
\<close>

theorem uniform_scalar_value:
  assumes "first_index (contains ''internalField'') lines = Some idx"
    and "contains ''uniform'' (lines ! idx)"
    and "\<not> contains ''nonuniform'' (lines ! idx)"
  shows "(\<exists>pre rest. lines ! idx = pre @ ''uniform'' @ rest \<and> \<not> contains ''uniform'' (pre @ ''unifor''))
       \<and> (\<forall>pre rest.
             lines ! idx = pre @ ''uniform'' @ rest \<and> \<not> contains ''uniform'' (pre @ ''unifor'') \<longrightarrow>
             parse_scalar_field float lines =
               (case py_split (strip_chars ''()'' (semicolons_blanked rest)) of
                  [] \<Rightarrow> Inl IndexError
                | first # extra \<Rightarrow>
                    (case float first of
                       None \<Rightarrow> Inl MalformedNumber
                     | Some v \<Rightarrow> Inr [v])))"
proof -
  have e: "\<exists>pre rest. lines ! idx = pre @ ''uniform'' @ rest \<and> \<not> contains ''uniform'' (pre @ ''unifor'')"
    using first_occurrence_exists [of "''uniform''" "lines ! idx"] assms(2) by simp
  have r: "parse_scalar_field float lines =
               (case py_split (strip_chars ''()'' (semicolons_blanked rest)) of
                  [] \<Rightarrow> Inl IndexError
                | first # extra \<Rightarrow>
                    (case float first of
                       None \<Rightarrow> Inl MalformedNumber
                     | Some v \<Rightarrow> Inr [v]))"
    if s: "lines ! idx = pre @ ''uniform'' @ rest" and f: "\<not> contains ''uniform'' (pre @ ''unifor'')"
    for pre rest
  proof -
    have loc: "parse_internal_field_lines lines = Inr ([semicolons_blanked rest], True)"
      using assms(1) s f assms(3) by (rule uniform_result)
    show ?thesis
      by (simp add: parse_scalar_field_def loc semicolons_blanked_idem)
  qed
  show ?thesis using e r by blast
qed

text \<open>
A parenthesised value after a header line, a value with a semicolon inside, and a
value that is no number.
\<close>

theorem uniform_scalar_value_witness:
  "parse_scalar_field py_float [''FoamFile\<newline>'', ''internalField   uniform (4.2) ;\<newline>'']
     = Inr [Finite (21 / 5)]
   \<and> parse_scalar_field py_float [''internalField   uniform 4.2;extra;\<newline>''] = Inr [Finite (21 / 5)]
   \<and> parse_scalar_field py_float [''internalField uniform (abc);\<newline>''] = Inl MalformedNumber"
proof -
  have a1: "first_index (contains ''internalField'')
              [''FoamFile\<newline>'', ''internalField   uniform (4.2) ;\<newline>''] = Some 1"
    by code_simp
  have a2: "contains ''uniform'' ([''FoamFile\<newline>'', ''internalField   uniform (4.2) ;\<newline>''] ! 1)"
    by code_simp
  have a3: "\<not> contains ''nonuniform'' ([''FoamFile\<newline>'', ''internalField   uniform (4.2) ;\<newline>''] ! 1)"
    by code_simp
  have a4: "[''FoamFile\<newline>'', ''internalField   uniform (4.2) ;\<newline>''] ! 1
              = ''internalField   '' @ ''uniform'' @ '' (4.2) ;\<newline>''
            \<and> \<not> contains ''uniform'' (''internalField   '' @ ''unifor'')"
    by code_simp
  have a5: "py_split (strip_chars ''()'' (semicolons_blanked '' (4.2) ;\<newline>'')) = [''4.2'']"
    by code_simp
  have v: "py_float ''4.2'' = Some (Finite (21 / 5))" by code_simp
  have a: "parse_scalar_field py_float [''FoamFile\<newline>'', ''internalField   uniform (4.2) ;\<newline>'']
             = Inr [Finite (21 / 5)]"
    using uniform_scalar_value [OF a1 a2 a3, of py_float, THEN conjunct2, rule_format, OF a4]
    unfolding a5 list.case v option.case .
  have b1: "first_index (contains ''internalField'') [''internalField   uniform 4.2;extra;\<newline>''] = Some 0"
    by code_simp
  have b2: "contains ''uniform'' ([''internalField   uniform 4.2;extra;\<newline>''] ! 0)"
    by code_simp
  have b3: "\<not> contains ''nonuniform'' ([''internalField   uniform 4.2;extra;\<newline>''] ! 0)"
    by code_simp
  have b4: "[''internalField   uniform 4.2;extra;\<newline>''] ! 0
              = ''internalField   '' @ ''uniform'' @ '' 4.2;extra;\<newline>''
            \<and> \<not> contains ''uniform'' (''internalField   '' @ ''unifor'')"
    by code_simp
  have b5: "py_split (strip_chars ''()'' (semicolons_blanked '' 4.2;extra;\<newline>'')) = [''4.2'', ''extra'']"
    by code_simp
  have b: "parse_scalar_field py_float [''internalField   uniform 4.2;extra;\<newline>''] = Inr [Finite (21 / 5)]"
    using uniform_scalar_value [OF b1 b2 b3, of py_float, THEN conjunct2, rule_format, OF b4]
    unfolding b5 list.case v option.case .
  have c1: "first_index (contains ''internalField'') [''internalField uniform (abc);\<newline>''] = Some 0"
    by code_simp
  have c2: "contains ''uniform'' ([''internalField uniform (abc);\<newline>''] ! 0)"
    by code_simp
  have c3: "\<not> contains ''nonuniform'' ([''internalField uniform (abc);\<newline>''] ! 0)"
    by code_simp
  have c4: "[''internalField uniform (abc);\<newline>''] ! 0
              = ''internalField '' @ ''uniform'' @ '' (abc);\<newline>''
            \<and> \<not> contains ''uniform'' (''internalField '' @ ''unifor'')"
    by code_simp
  have c5: "py_split (strip_chars ''()'' (semicolons_blanked '' (abc);\<newline>'')) = [''abc'']"
    by code_simp
  have cv: "py_float ''abc'' = None" by code_simp
  have c: "parse_scalar_field py_float [''internalField uniform (abc);\<newline>''] = Inl MalformedNumber"
    using uniform_scalar_value [OF c1 c2 c3, of py_float, THEN conjunct2, rule_format, OF c4]
    unfolding c5 list.case cv option.case .
  show ?thesis using a b c by (intro conjI)
qed

section \<open>C5: the vector of a uniform entry\<close>

text \<open>
Claim C5. For every uniform block, the vector extraction strips the enclosing
parentheses of the text and splits it on whitespace. It fails with \<open>ArityMismatch\<close>
unless there are exactly three tokens, with \<open>MalformedNumber\<close> when there are three and
\<^verbatim>\<open>float\<close> rejects one, and otherwise returns the one-element list of the triple.
\<close>

theorem uniform_vector_three_components:
  assumes "parse_internal_field_lines lines = Inr ([raw], True)"
  shows "(length (py_split (strip_chars ''()'' raw)) \<noteq> 3 \<longrightarrow>
            parse_vector_field float lines = Inl ArityMismatch)
       \<and> (length (py_split (strip_chars ''()'' raw)) = 3
            \<and> None \<in> set (map float (py_split (strip_chars ''()'' raw))) \<longrightarrow>
            parse_vector_field float lines = Inl MalformedNumber)
       \<and> (\<forall>x y z. map float (py_split (strip_chars ''()'' raw)) = [Some x, Some y, Some z] \<longrightarrow>
            parse_vector_field float lines = Inr [(x, y, z)])"
proof -
  obtain after where "raw = semicolons_blanked after"
    using assms
    by (auto simp: parse_internal_field_lines_def Let_def split: option.splits if_splits list.splits)
  then have "strip raw = raw" by (simp add: semicolons_blanked_idem)
  then have "parse_vector_field float lines =
      (case float3 float (py_split (strip_chars ''()'' raw)) of Inl e \<Rightarrow> Inl e | Inr v \<Rightarrow> Inr [v])"
    using assms by (simp add: parse_vector_field_def)
  then show ?thesis
    by (auto simp: float3_arity float3_malformed float3_values)
qed

text \<open>
The entry \<^verbatim>\<open>internalField   uniform (1 0 0);\<close> gives the single triple (1, 0, 0).
\<close>

theorem uniform_vector_three_components_witness:
  "parse_internal_field_lines [''internalField   uniform (1 0 0);\<newline>''] = Inr ([''(1 0 0)''], True)
   \<and> parse_vector_field py_float [''internalField   uniform (1 0 0);\<newline>'']
       = Inr [(Finite 1, Finite 0, Finite 0)]"
proof -
  have loc: "parse_internal_field_lines [''internalField   uniform (1 0 0);\<newline>'']
             = Inr ([''(1 0 0)''], True)"
    by code_simp
  have toks: "map py_float (py_split (strip_chars ''()'' ''(1 0 0)''))
              = [Some (Finite 1), Some (Finite 0), Some (Finite 0)]"
    by code_simp
  note uniform_vector_three_components
    [OF loc, of py_float, THEN conjunct2, THEN conjunct2, rule_format, OF toks]
  with loc show ?thesis by (intro conjI)
qed

section \<open>C6: the scalars of a non-uniform block\<close>

text \<open>
Claim C6. The specification says that each data line has its trailing \<^verbatim>\<open>;\<close> and
whitespace stripped and that what remains is read as one number, failing with
\<open>MalformedNumber\<close> when it is none. The source replaces every \<^verbatim>\<open>;\<close> of the line by a
blank, wherever it stands, and then strips: the line \<^verbatim>\<open>;0.5\<close>, which the wording of
the specification rejects, is read as 0.5.
\<close>

theorem leading_semicolon_is_accepted:
  "parse_internal_field_lines
     [''internalField   nonuniform List<scalar>\<newline>'', ''1\<newline>'', ''(\<newline>'',
      '';0.5\<newline>'', '')\<newline>'']
     = Inr (['';0.5''], False)
   \<and> parse_scalar_field py_float
     [''internalField   nonuniform List<scalar>\<newline>'', ''1\<newline>'', ''(\<newline>'',
      '';0.5\<newline>'', '')\<newline>'']
     = Inr [Finite (1 / 2)]
   \<and> spec_scalar_values py_float ['';0.5''] = Inl MalformedNumber"
  by code_simp

text \<open>
Claim C6, as the code has it. For every non-uniform block parsed with scalar arity,
each data line has every \<^verbatim>\<open>;\<close> replaced by a blank and the surrounding whitespace
stripped; lines that become empty are skipped; each remaining line is read by \<^verbatim>\<open>float\<close>
as one number. When every one is accepted the result is the list of the values in the
order of the file; when one is rejected the parse fails with \<open>MalformedNumber\<close>. When
each of the data lines is well formed (not empty once cleaned, and accepted), the result
has as many values as there are data lines.
\<close>

theorem nonuniform_scalar_values:
  assumes "parse_internal_field_lines lines = Inr (data_lines, False)"
  shows "(\<forall>vs. map float (filter (\<lambda>t. t \<noteq> []) (map semicolons_blanked data_lines)) = map Some vs \<longrightarrow>
            parse_scalar_field float lines = Inr vs)
       \<and> (None \<in> set (map float (filter (\<lambda>t. t \<noteq> []) (map semicolons_blanked data_lines))) \<longrightarrow>
            parse_scalar_field float lines = Inl MalformedNumber)
       \<and> ((\<forall>l\<in>set data_lines. semicolons_blanked l \<noteq> [] \<and> float (semicolons_blanked l) \<noteq> None) \<longrightarrow>
            (\<exists>vs. parse_scalar_field float lines = Inr vs \<and> length vs = length data_lines))"
proof -
  have p: "parse_scalar_field float lines = scalar_loop float [] data_lines"
    using assms by (simp add: parse_scalar_field_def)
  have a: "parse_scalar_field float lines = Inr vs"
    if "map float (filter (\<lambda>t. t \<noteq> []) (map semicolons_blanked data_lines)) = map Some vs" for vs
    using scalar_loop_values [OF that, of "[]"] p by simp
  have b: "parse_scalar_field float lines = Inl MalformedNumber"
    if "None \<in> set (map float (filter (\<lambda>t. t \<noteq> []) (map semicolons_blanked data_lines)))"
    using scalar_loop_malformed [OF that, of "[]"] p by simp
  have c: "\<exists>vs. parse_scalar_field float lines = Inr vs \<and> length vs = length data_lines"
    if wf: "\<forall>l\<in>set data_lines. semicolons_blanked l \<noteq> [] \<and> float (semicolons_blanked l) \<noteq> None"
  proof -
    have f: "filter (\<lambda>t. t \<noteq> []) (map semicolons_blanked data_lines) = map semicolons_blanked data_lines"
      using wf by (auto simp: filter_id_conv)
    have "None \<notin> set (map float (map semicolons_blanked data_lines))"
      using wf by auto
    then obtain vs where vs: "map float (map semicolons_blanked data_lines) = map Some vs"
      using all_Some_values by blast
    then have "length vs = length data_lines"
      by (metis length_map)
    moreover have "parse_scalar_field float lines = Inr vs"
      using a vs f by simp
    ultimately show ?thesis by blast
  qed
  show ?thesis using a b c by blast
qed

text \<open>
Three values, one with a trailing and one with a leading semicolon.
\<close>

theorem nonuniform_scalar_values_witness:
  "parse_internal_field_lines
     [''internalField   nonuniform List<scalar>\<newline>'', ''3\<newline>'', ''(\<newline>'',
      ''0.1\<newline>'', ''0.2;\<newline>'', '';0.3\<newline>'', '')\<newline>'']
     = Inr ([''0.1'', ''0.2;'', '';0.3''], False)
   \<and> parse_scalar_field py_float
     [''internalField   nonuniform List<scalar>\<newline>'', ''3\<newline>'', ''(\<newline>'',
      ''0.1\<newline>'', ''0.2;\<newline>'', '';0.3\<newline>'', '')\<newline>'']
     = Inr [Finite (1 / 10), Finite (1 / 5), Finite (3 / 10)]"
proof -
  have loc: "parse_internal_field_lines
     [''internalField   nonuniform List<scalar>\<newline>'', ''3\<newline>'', ''(\<newline>'',
      ''0.1\<newline>'', ''0.2;\<newline>'', '';0.3\<newline>'', '')\<newline>'']
     = Inr ([''0.1'', ''0.2;'', '';0.3''], False)"
    by code_simp
  have vals: "map py_float (filter (\<lambda>t. t \<noteq> []) (map semicolons_blanked [''0.1'', ''0.2;'', '';0.3'']))
      = map Some [Finite (1 / 10), Finite (1 / 5), Finite (3 / 10)]"
    by code_simp
  note nonuniform_scalar_values [OF loc, of py_float, THEN conjunct1, rule_format, OF vals]
  with loc show ?thesis by (intro conjI)
qed

section \<open>C7: the vectors of a non-uniform block\<close>

text \<open>
Claim C7. For every non-uniform block parsed with vector arity, the tokens of a data
line are those of \<open>vector_parts\<close>: the line is stripped of whitespace and of trailing
semicolons, loses one leading and one trailing parenthesis when it starts with \<^verbatim>\<open>(\<close>
and ends with \<^verbatim>\<open>)\<close>, and is split on whitespace. When every line gives a triple, the
result is the list of the triples in the order of the file. Otherwise the parse fails
with the error of the first line that gives none: \<open>ArityMismatch\<close> when it has not
exactly three tokens, \<open>MalformedNumber\<close> when it has three and \<^verbatim>\<open>float\<close> rejects one. A
parenthesised line has the tokens of the text inside its parentheses, and a bare line
the tokens of its text, so both forms are accepted.
\<close>

theorem nonuniform_vector_lines:
  assumes "parse_internal_field_lines lines = Inr (data_lines, False)"
  shows "(\<forall>vs. map (\<lambda>l. float3 float (vector_parts l)) data_lines = map Inr vs \<longrightarrow>
            parse_vector_field float lines = Inr vs)
       \<and> (\<forall>good bad rest vs e.
            data_lines = good @ bad # rest
            \<and> map (\<lambda>l. float3 float (vector_parts l)) good = map Inr vs
            \<and> float3 float (vector_parts bad) = Inl e \<longrightarrow>
            parse_vector_field float lines = Inl e)
       \<and> (\<forall>l. (length (vector_parts l) \<noteq> 3 \<longrightarrow> float3 float (vector_parts l) = Inl ArityMismatch)
            \<and> (length (vector_parts l) = 3 \<and> None \<in> set (map float (vector_parts l)) \<longrightarrow>
                 float3 float (vector_parts l) = Inl MalformedNumber)
            \<and> (\<forall>x y z. map float (vector_parts l) = [Some x, Some y, Some z] \<longrightarrow>
                 float3 float (vector_parts l) = Inr (x, y, z)))
       \<and> (\<forall>s semis. (\<forall>c\<in>set semis. c = CHR '';'') \<longrightarrow>
            vector_parts (''('' @ s @ '')'' @ semis) = py_split s
            \<and> (CHR '';'' \<notin> set s \<and> CHR ''('' \<notin> set s \<longrightarrow> vector_parts (s @ semis) = py_split s))"
proof -
  have p: "parse_vector_field float lines = vector_loop float [] data_lines"
    using assms by (simp add: parse_vector_field_def)
  have a: "parse_vector_field float lines = Inr vs"
    if "map (\<lambda>l. float3 float (vector_parts l)) data_lines = map Inr vs" for vs
    using vector_loop_values [OF that, of "[]"] p by simp
  have b: "parse_vector_field float lines = Inl e"
    if "data_lines = good @ bad # rest"
      "map (\<lambda>l. float3 float (vector_parts l)) good = map Inr vs"
      "float3 float (vector_parts bad) = Inl e" for good bad rest vs e
    using vector_loop_first_failure [OF that(2,3), of "[]" rest] p that(1) by simp
  have c: "(length (vector_parts l) \<noteq> 3 \<longrightarrow> float3 float (vector_parts l) = Inl ArityMismatch)
            \<and> (length (vector_parts l) = 3 \<and> None \<in> set (map float (vector_parts l)) \<longrightarrow>
                 float3 float (vector_parts l) = Inl MalformedNumber)
            \<and> (\<forall>x y z. map float (vector_parts l) = [Some x, Some y, Some z] \<longrightarrow>
                 float3 float (vector_parts l) = Inr (x, y, z))" for l
    using float3_arity [of "vector_parts l" float] float3_malformed [of "vector_parts l" float]
      float3_values [of float "vector_parts l"]
    by (intro conjI allI impI) simp_all
  have d: "vector_parts (''('' @ s @ '')'' @ semis) = py_split s
            \<and> (CHR '';'' \<notin> set s \<and> CHR ''('' \<notin> set s \<longrightarrow> vector_parts (s @ semis) = py_split s)"
    if "\<forall>c\<in>set semis. c = CHR '';''" for s semis
    using vector_parts_parenthesised [OF that, of s] vector_parts_bare [of s semis] that
    by (intro conjI impI) simp_all
  have ab: "(\<forall>vs. map (\<lambda>l. float3 float (vector_parts l)) data_lines = map Inr vs \<longrightarrow>
            parse_vector_field float lines = Inr vs)
       \<and> (\<forall>good bad rest vs e.
            data_lines = good @ bad # rest
            \<and> map (\<lambda>l. float3 float (vector_parts l)) good = map Inr vs
            \<and> float3 float (vector_parts bad) = Inl e \<longrightarrow>
            parse_vector_field float lines = Inl e)"
    using a b by blast
  show ?thesis
    apply (intro conjI)
       apply (rule ab [THEN conjunct1])
      apply (rule ab [THEN conjunct2])
     apply (rule allI, rule c)
    apply (intro allI impI, erule d)
    done
qed

text \<open>
A parenthesised and a bare line together; a line of two tokens before a line with a
bad number, and the other way round.
\<close>

theorem nonuniform_vector_lines_witness:
  "parse_vector_field py_float
     [''internalField   nonuniform List<vector>\<newline>'', ''2\<newline>'', ''(\<newline>'',
      ''(1 0 0)\<newline>'', ''0.5 2 3;\<newline>'', '')\<newline>'']
     = Inr [(Finite 1, Finite 0, Finite 0), (Finite (1 / 2), Finite 2, Finite 3)]
   \<and> parse_vector_field py_float
     [''internalField   nonuniform List<vector>\<newline>'', ''2\<newline>'', ''(\<newline>'',
      ''(1 0 0)\<newline>'', ''1 2\<newline>'', ''(1 x 0)\<newline>'', '')\<newline>'']
     = Inl ArityMismatch
   \<and> parse_vector_field py_float
     [''internalField   nonuniform List<vector>\<newline>'', ''2\<newline>'', ''(\<newline>'',
      ''(1 0 0)\<newline>'', ''(1 x 0)\<newline>'', ''1 2\<newline>'', '')\<newline>'']
     = Inl MalformedNumber"
proof -
  have loc1: "parse_internal_field_lines
     [''internalField   nonuniform List<vector>\<newline>'', ''2\<newline>'', ''(\<newline>'',
      ''(1 0 0)\<newline>'', ''0.5 2 3;\<newline>'', '')\<newline>'']
     = Inr ([''(1 0 0)'', ''0.5 2 3;''], False)"
    by code_simp
  have v1: "map (\<lambda>l. float3 py_float (vector_parts l)) [''(1 0 0)'', ''0.5 2 3;'']
            = map Inr [(Finite 1, Finite 0, Finite 0), (Finite (1 / 2), Finite 2, Finite 3)]"
    by code_simp
  note r1 = nonuniform_vector_lines [OF loc1, of py_float, THEN conjunct1, rule_format, OF v1]
  have loc2: "parse_internal_field_lines
     [''internalField   nonuniform List<vector>\<newline>'', ''2\<newline>'', ''(\<newline>'',
      ''(1 0 0)\<newline>'', ''1 2\<newline>'', ''(1 x 0)\<newline>'', '')\<newline>'']
     = Inr ([''(1 0 0)'', ''1 2'', ''(1 x 0)''], False)"
    by code_simp
  have g: "map (\<lambda>l. float3 py_float (vector_parts l)) [''(1 0 0)'']
            = map Inr [(Finite 1, Finite 0, Finite 0)]"
    by code_simp
  have s2: "[''(1 0 0)'', ''1 2'', ''(1 x 0)''] = [''(1 0 0)''] @ ''1 2'' # [''(1 x 0)'']" by simp
  have e2: "float3 py_float (vector_parts ''1 2'') = Inl ArityMismatch" by code_simp
  note r2 = nonuniform_vector_lines [OF loc2, of py_float, THEN conjunct2, THEN conjunct1,
      rule_format, OF conjI [OF s2 conjI [OF g e2]]]
  have loc3: "parse_internal_field_lines
     [''internalField   nonuniform List<vector>\<newline>'', ''2\<newline>'', ''(\<newline>'',
      ''(1 0 0)\<newline>'', ''(1 x 0)\<newline>'', ''1 2\<newline>'', '')\<newline>'']
     = Inr ([''(1 0 0)'', ''(1 x 0)'', ''1 2''], False)"
    by code_simp
  have s3: "[''(1 0 0)'', ''(1 x 0)'', ''1 2''] = [''(1 0 0)''] @ ''(1 x 0)'' # [''1 2'']" by simp
  have e3: "float3 py_float (vector_parts ''(1 x 0)'') = Inl MalformedNumber" by code_simp
  note r3 = nonuniform_vector_lines [OF loc3, of py_float, THEN conjunct2, THEN conjunct1,
      rule_format, OF conjI [OF s3 conjI [OF g e3]]]
  show ?thesis using r1 r2 r3 by (intro conjI)
qed

section \<open>C8: comments and blank lines\<close>

text \<open>
Claim C8. For every non-uniform file that the locator accepts, the data lines are the
lines after the line of the opening parenthesis, up to the terminator, each stripped of
its surrounding whitespace and otherwise unchanged, without those that are empty once
stripped and without those that then start with \<^verbatim>\<open>//\<close>. Both extractors compute their
values from these data lines alone, so a comment or a blank line gives no entry.
\<close>

theorem data_lines_are_the_kept_lines:
  assumes "parse_internal_field_lines lines = Inr (data_lines, False)"
  shows "(\<exists>i<length lines. strip (lines ! i) = ''(''
            \<and> data_lines =
                filter (\<lambda>s. s \<noteq> [] \<and> \<not> startswith ''//'' s)
                  (map strip (takeWhile (\<lambda>l. \<not> is_terminator (strip l)) (drop (Suc i) lines))))
       \<and> parse_scalar_field float lines = scalar_loop float [] data_lines
       \<and> parse_vector_field float' lines = vector_loop float' [] data_lines"
proof -
  from nonuniform_result [OF assms] obtain i where
    "i < length lines" "strip (lines ! i) = ''(''"
    "data_lines = collect_data_lines [] (drop (Suc i) lines)" by blast
  then have "\<exists>i<length lines. strip (lines ! i) = ''(''
            \<and> data_lines =
                filter (\<lambda>s. s \<noteq> [] \<and> \<not> startswith ''//'' s)
                  (map strip (takeWhile (\<lambda>l. \<not> is_terminator (strip l)) (drop (Suc i) lines)))"
    by (auto simp: collect_data_lines_eq)
  then show ?thesis
    using assms by (simp add: parse_scalar_field_def parse_vector_field_def)
qed

text \<open>
A block with a comment, an indented value and a blank line; the line after the
terminator is not read.
\<close>

theorem data_lines_are_the_kept_lines_witness:
  "parse_internal_field_lines
     [''internalField   nonuniform List<scalar>\<newline>'', ''2\<newline>'', ''(\<newline>'',
      ''// first cell\<newline>'', ''  0.1  \<newline>'', ''\<newline>'', ''0.2\<newline>'', '')\<newline>'', ''7\<newline>'']
     = Inr ([''0.1'', ''0.2''], False)
   \<and> (\<exists>i<length
     [''internalField   nonuniform List<scalar>\<newline>'', ''2\<newline>'', ''(\<newline>'',
      ''// first cell\<newline>'', ''  0.1  \<newline>'', ''\<newline>'', ''0.2\<newline>'', '')\<newline>'', ''7\<newline>''].
        strip (
     [''internalField   nonuniform List<scalar>\<newline>'', ''2\<newline>'', ''(\<newline>'',
      ''// first cell\<newline>'', ''  0.1  \<newline>'', ''\<newline>'', ''0.2\<newline>'', '')\<newline>'', ''7\<newline>''] ! i) = ''(''
        \<and> [''0.1'', ''0.2''] =
          filter (\<lambda>s. s \<noteq> [] \<and> \<not> startswith ''//'' s)
            (map strip (takeWhile (\<lambda>l. \<not> is_terminator (strip l))
              (drop (Suc i)
     [''internalField   nonuniform List<scalar>\<newline>'', ''2\<newline>'', ''(\<newline>'',
      ''// first cell\<newline>'', ''  0.1  \<newline>'', ''\<newline>'', ''0.2\<newline>'', '')\<newline>'', ''7\<newline>'']))))"
proof -
  have loc: "parse_internal_field_lines
     [''internalField   nonuniform List<scalar>\<newline>'', ''2\<newline>'', ''(\<newline>'',
      ''// first cell\<newline>'', ''  0.1  \<newline>'', ''\<newline>'', ''0.2\<newline>'', '')\<newline>'', ''7\<newline>'']
     = Inr ([''0.1'', ''0.2''], False)"
    by code_simp
  from loc data_lines_are_the_kept_lines [OF loc, THEN conjunct1]
  show ?thesis by (rule conjI)
qed

section \<open>C10: a uniform entry without a value\<close>

text \<open>
Claim C10. For the uniform entry \<^verbatim>\<open>internalField uniform ;\<close> nothing is left of the
value once the semicolon, the whitespace and the parentheses are stripped;
\<^verbatim>\<open>vstr.split()\<close> is the empty list, \<^verbatim>\<open>[0]\<close> is out of range, and the scalar
extraction ends in \<^verbatim>\<open>IndexError\<close>, whatever \<^verbatim>\<open>float\<close> accepts: no number is ever read.
\<close>

theorem uniform_scalar_without_value_IndexError:
  "parse_scalar_field float [''internalField uniform ;\<newline>''] = Inl IndexError"
proof -
  have loc: "parse_internal_field_lines [''internalField uniform ;\<newline>''] = Inr ([[]], True)"
    by code_simp
  have toks: "py_split (strip_chars ''()'' (strip [])) = []"
    by code_simp
  show ?thesis
    by (simp add: parse_scalar_field_def loc toks)
qed

section \<open>Further properties of the locator and of the vector lines\<close>

text \<open>
The locator fails with \<open>MissingEntry\<close> exactly when no line contains
\<^verbatim>\<open>internalField\<close>.
\<close>

theorem missing_entry_iff:
  "parse_internal_field_lines lines = Inl MissingEntry
     \<longleftrightarrow> (\<forall>l\<in>set lines. \<not> contains ''internalField'' l)"
proof (cases "first_index (contains ''internalField'') lines")
  case None
  have "parse_internal_field_lines lines = Inl MissingEntry"
    unfolding parse_internal_field_lines_def None by simp
  moreover have "\<forall>l\<in>set lines. \<not> contains ''internalField'' l"
    using None by (simp add: first_index_None_iff)
  ultimately show ?thesis by blast
next
  case (Some idx)
  then have "\<not> (\<forall>l\<in>set lines. \<not> contains ''internalField'' l)"
    by (metis first_index_None_iff option.distinct(1))
  moreover have "parse_internal_field_lines lines \<noteq> Inl MissingEntry"
    using Some
    by (auto simp: parse_internal_field_lines_def Let_def split: option.splits list.splits)
  ultimately show ?thesis by blast
qed

theorem missing_entry_iff_witness:
  "parse_internal_field_lines [''FoamFile\<newline>'', ''dimensions [0 1 -1 0 0 0 0];\<newline>''] = Inl MissingEntry"
proof -
  have "\<forall>l\<in>set [''FoamFile\<newline>'', ''dimensions [0 1 -1 0 0 0 0];\<newline>'']. \<not> contains ''internalField'' l"
    by code_simp
  then show ?thesis by (rule missing_entry_iff [THEN iffD2])
qed

text \<open>
In a non-uniform file the locator fails with \<open>MissingCount\<close> exactly when no line from
the entry line on is a count line, and, when there is one, with
\<open>MissingOpenDelimiter\<close> exactly when no line after the first of them is an opening
parenthesis alone.
\<close>

theorem missing_count_or_open_delimiter:
  assumes "first_index (contains ''internalField'') lines = Some idx"
    and "\<not> (contains ''uniform'' (lines ! idx) \<and> \<not> contains ''nonuniform'' (lines ! idx))"
  shows "(parse_internal_field_lines lines = Inl MissingCount
            \<longleftrightarrow> (\<forall>j. idx \<le> j \<and> j < length lines \<longrightarrow> \<not> is_count_line (lines ! j)))
       \<and> (\<forall>n_idx. first_index_from is_count_line lines idx = Some n_idx \<longrightarrow>
            (parse_internal_field_lines lines = Inl MissingOpenDelimiter
               \<longleftrightarrow> (\<forall>j. n_idx < j \<and> j < length lines \<longrightarrow> strip (lines ! j) \<noteq> ''('')))"
proof -
  note l = locator_nonuniform [OF assms]
  have a: "parse_internal_field_lines lines = Inl MissingCount
            \<longleftrightarrow> first_index_from is_count_line lines idx = None"
    unfolding l by (auto split: option.splits)
  have b: "parse_internal_field_lines lines = Inl MissingOpenDelimiter
            \<longleftrightarrow> first_index_from (\<lambda>l. strip l = ''('') lines (n_idx + 1) = None"
    if "first_index_from is_count_line lines idx = Some n_idx" for n_idx
    unfolding l that by (auto split: option.splits)
  have c: "(\<forall>j. n_idx + 1 \<le> j \<and> j < length lines \<longrightarrow> strip (lines ! j) \<noteq> ''('')
           \<longleftrightarrow> (\<forall>j. n_idx < j \<and> j < length lines \<longrightarrow> strip (lines ! j) \<noteq> ''('')" for n_idx
    by (simp add: Suc_le_eq)
  show ?thesis
    using a b unfolding first_index_from_None_iff c by blast
qed

theorem missing_count_or_open_delimiter_witness:
  "parse_internal_field_lines [''internalField   nonuniform List<scalar>\<newline>'', ''(\<newline>'', '')\<newline>'']
     = Inl MissingCount
   \<and> parse_internal_field_lines [''internalField   nonuniform List<scalar>\<newline>'', ''2\<newline>'', ''0.1\<newline>'']
     = Inl MissingOpenDelimiter"
proof -
  have a1: "first_index (contains ''internalField'')
              [''internalField   nonuniform List<scalar>\<newline>'', ''(\<newline>'', '')\<newline>''] = Some 0"
    by code_simp
  have a2: "\<not> (contains ''uniform''
              ([''internalField   nonuniform List<scalar>\<newline>'', ''(\<newline>'', '')\<newline>''] ! 0)
            \<and> \<not> contains ''nonuniform''
              ([''internalField   nonuniform List<scalar>\<newline>'', ''(\<newline>'', '')\<newline>''] ! 0))"
    by code_simp
  have "first_index_from is_count_line
          [''internalField   nonuniform List<scalar>\<newline>'', ''(\<newline>'', '')\<newline>''] 0 = None"
    by code_simp
  then have a3: "\<forall>j. 0 \<le> j \<and> j < length
          [''internalField   nonuniform List<scalar>\<newline>'', ''(\<newline>'', '')\<newline>''] \<longrightarrow>
        \<not> is_count_line ([''internalField   nonuniform List<scalar>\<newline>'', ''(\<newline>'', '')\<newline>''] ! j)"
    unfolding first_index_from_None_iff .
  have a: "parse_internal_field_lines
             [''internalField   nonuniform List<scalar>\<newline>'', ''(\<newline>'', '')\<newline>''] = Inl MissingCount"
    using missing_count_or_open_delimiter [OF a1 a2, THEN conjunct1] a3 by (rule iffD2)
  have b1: "first_index (contains ''internalField'')
              [''internalField   nonuniform List<scalar>\<newline>'', ''2\<newline>'', ''0.1\<newline>''] = Some 0"
    by code_simp
  have b2: "\<not> (contains ''uniform''
              ([''internalField   nonuniform List<scalar>\<newline>'', ''2\<newline>'', ''0.1\<newline>''] ! 0)
            \<and> \<not> contains ''nonuniform''
              ([''internalField   nonuniform List<scalar>\<newline>'', ''2\<newline>'', ''0.1\<newline>''] ! 0))"
    by code_simp
  have b3: "first_index_from is_count_line
          [''internalField   nonuniform List<scalar>\<newline>'', ''2\<newline>'', ''0.1\<newline>''] 0 = Some 1"
    by code_simp
  have "first_index_from (\<lambda>l. strip l = ''('')
          [''internalField   nonuniform List<scalar>\<newline>'', ''2\<newline>'', ''0.1\<newline>''] (Suc 1) = None"
    by code_simp
  then have b4: "\<forall>j. 1 < j \<and> j < length
          [''internalField   nonuniform List<scalar>\<newline>'', ''2\<newline>'', ''0.1\<newline>''] \<longrightarrow>
        strip ([''internalField   nonuniform List<scalar>\<newline>'', ''2\<newline>'', ''0.1\<newline>''] ! j) \<noteq> ''(''"
    unfolding first_index_from_None_iff by (simp add: Suc_le_eq)
  have b: "parse_internal_field_lines
             [''internalField   nonuniform List<scalar>\<newline>'', ''2\<newline>'', ''0.1\<newline>''] = Inl MissingOpenDelimiter"
    using missing_count_or_open_delimiter [OF b1 b2, THEN conjunct2, rule_format, OF b3] b4
    by (rule iffD2)
  show ?thesis using a b by (rule conjI)
qed

text \<open>
A vector line that starts with a parenthesis and, once stripped of whitespace and of
trailing semicolons, does not end with one keeps its parenthesis: its tokens are those
of the stripped line, so the first of them is no number.
\<close>

theorem unclosed_parenthesis_is_kept:
  assumes "\<not> (\<exists>t. rstrip_chars '';'' (strip l) = t @ '')'')"
  shows "vector_parts l = py_split (rstrip_chars '';'' (strip l))"
  using assms by (simp add: vector_parts_def endswith_iff)

theorem unclosed_parenthesis_is_kept_witness:
  "vector_parts ''(1 2 35'' = [''(1'', ''2'', ''35'']
   \<and> parse_vector_field py_float
        [''internalField   nonuniform List<vector>\<newline>'', ''1\<newline>'', ''(\<newline>'',
         ''(1 2 35\<newline>'', '')\<newline>'']
      = Inl MalformedNumber"
proof -
  have "\<not> endswith '')'' (rstrip_chars '';'' (strip ''(1 2 35''))" by code_simp
  then have h: "\<not> (\<exists>t. rstrip_chars '';'' (strip ''(1 2 35'') = t @ '')'')"
    unfolding endswith_iff .
  have t: "py_split (rstrip_chars '';'' (strip ''(1 2 35'')) = [''(1'', ''2'', ''35'']"
    by code_simp
  have a: "vector_parts ''(1 2 35'' = [''(1'', ''2'', ''35'']"
    using unclosed_parenthesis_is_kept [OF h] unfolding t .
  have loc: "parse_internal_field_lines
        [''internalField   nonuniform List<vector>\<newline>'', ''1\<newline>'', ''(\<newline>'',
         ''(1 2 35\<newline>'', '')\<newline>''] = Inr ([''(1 2 35''], False)"
    by code_simp
  have f: "float3 py_float [''(1'', ''2'', ''35''] = Inl MalformedNumber" by code_simp
  have b: "parse_vector_field py_float
        [''internalField   nonuniform List<vector>\<newline>'', ''1\<newline>'', ''(\<newline>'',
         ''(1 2 35\<newline>'', '')\<newline>''] = Inl MalformedNumber"
    by (simp add: parse_vector_field_def loc a f)
  show ?thesis using a b by (rule conjI)
qed

end
